theory Spec2Isabelle
  imports Main "HOL-Library.Multiset"
begin

section \<open>Grid codec shared by the pathfinders\<close>

text \<open>
  A maze is the TypeScript \<open>number[][]\<close>: a list of rows of integers, \<open>0\<close> a path and
  \<open>1\<close> a wall. Coordinates are \<open>[row, col]\<close> pairs of integers. The string keys
  \<open>`${r},${c}`\<close> that the source stores in its \<open>Set\<close> and \<open>Map\<close> objects are an
  injective encoding of integer pairs, so the sets and maps are keyed by the pair itself.
\<close>

type_synonym coord = "int \<times> int"
type_synonym grid = "int list list"

text \<open>
  Ways in which a call does not hand back a result object: \<open>maze[0].length\<close> on an empty
  array throws a \<open>TypeError\<close>; a loop that never ends returns nothing.
\<close>

datatype failure = TypeError | NoReturn

text \<open>The returned object \<open>{ path, visitedOrder }\<close>; \<open>null\<close> is \<open>None\<close>.\<close>

record trace =
  visitedOrder :: "coord list"

record path_result = trace +
  path :: "coord list option"

definition numRows :: "grid \<Rightarrow> int" where
  "numRows maze = int (length maze)"

text \<open>\<open>maze[0].length\<close>; only read once the maze is known to have a first row.\<close>

definition numCols :: "grid \<Rightarrow> int" where
  "numCols maze = int (length (hd maze))"

text \<open>
  \<open>maze[r][c]\<close> for a row index that the source has already checked; a column past the end
  of a (ragged) row reads \<open>undefined\<close>, which is neither \<open>0\<close> nor \<open>1\<close>.
\<close>

definition cell :: "grid \<Rightarrow> int \<Rightarrow> int \<Rightarrow> int option" where
  "cell maze r c =
     (if 0 \<le> r \<and> r < int (length maze)
      then (let row = maze ! nat r
            in if 0 \<le> c \<and> c < int (length row) then Some (row ! nat c) else None)
      else None)"

text \<open>The fail-fast test applied to each endpoint (out of bounds, or a wall).\<close>

definition invalid_endpoint :: "grid \<Rightarrow> coord \<Rightarrow> bool" where
  "invalid_endpoint maze p =
     (fst p < 0 \<or> fst p \<ge> numRows maze \<or> snd p < 0 \<or> snd p \<ge> numCols maze
      \<or> cell maze (fst p) (snd p) = Some 1)"

text \<open>The neighbour test: within bounds and a path (\<open>=== 0\<close>).\<close>

definition passable :: "grid \<Rightarrow> coord \<Rightarrow> bool" where
  "passable maze n =
     (fst n \<ge> 0 \<and> fst n < numRows maze \<and> snd n \<ge> 0 \<and> snd n < numCols maze
      \<and> cell maze (fst n) (snd n) = Some 0)"

definition directions4 :: "coord list" where
  "directions4 = [(-1, 0), (1, 0), (0, -1), (0, 1)]"

definition move :: "coord \<Rightarrow> coord \<Rightarrow> coord" where
  "move cur d = (fst cur + fst d, snd cur + snd d)"

text \<open>All coordinates inside the \<open>numRows\<close> by \<open>numCols\<close> rectangle.\<close>

definition cells :: "grid \<Rightarrow> coord set" where
  "cells maze = {0..<numRows maze} \<times> {0..<numCols maze}"

text \<open>
  Path reconstruction: \<open>while (current !== null) { path.push(current); current =
  parentMap.get(key) || null }\<close>. The loop follows parent pointers for as long as there
  are any, so it is a partial function; \<open>None\<close> stands for a walk that never ends.
\<close>

partial_function (option) reconstruct ::
  "(coord \<rightharpoonup> coord option) \<Rightarrow> coord \<Rightarrow> coord list \<Rightarrow> coord list option" where
  "reconstruct pm current acc =
     (let acc' = acc @ [current]
      in case pm current of
           Some (Some parent) \<Rightarrow> reconstruct pm parent acc'
         | _ \<Rightarrow> Some acc')"

declare reconstruct.simps [code]

text \<open>The object returned once the search loop has ended.\<close>

definition finish :: "bool \<Rightarrow> (coord \<rightharpoonup> coord option) \<Rightarrow> coord \<Rightarrow> coord list
    \<Rightarrow> failure + path_result" where
  "finish found pm endp vo =
     (if found
      then (case reconstruct pm endp [] of
              None \<Rightarrow> Inl NoReturn
            | Some p \<Rightarrow> Inr \<lparr>visitedOrder = vo, path = Some (rev p)\<rparr>)
      else Inr \<lparr>visitedOrder = vo, path = None\<rparr>)"

text \<open>
  How one pass of a \<open>while\<close> body ends: it falls through to the loop test again
  (also by \<open>continue\<close>), or it leaves the search with the end found (\<open>return\<close> or
  \<open>break\<close> with \<open>pathFound\<close> set).
\<close>

datatype 's flow = Continue 's | Return 's

fun flow_state :: "'s flow \<Rightarrow> 's" where
  "flow_state (Continue s) = s"
| "flow_state (Return s) = s"

text \<open>The state shared by the four graph searches.\<close>

record search_state = trace +
  visited :: "coord set"
  parentMap :: "coord \<rightharpoonup> coord option"

section \<open>Breadth-first search (bfs.ts)\<close>

record bfs_state = search_state +
  queue :: "coord list"

text \<open>The body of the \<open>for (const [dr, dc] of directions)\<close> loop.\<close>

definition bfs_visit :: "grid \<Rightarrow> coord \<Rightarrow> bfs_state \<Rightarrow> coord \<Rightarrow> bfs_state" where
  "bfs_visit maze cur st d =
     (let n = move cur d
      in if passable maze n \<and> n \<notin> visited st
         then st\<lparr>visited := insert n (visited st),
                 visitedOrder := visitedOrder st @ [n],
                 parentMap := (parentMap st)(n \<mapsto> Some cur),
                 queue := queue st @ [n]\<rparr>
         else st)"

text \<open>One pass of the \<open>while\<close> body for a dequeued cell that is not the end.\<close>

definition bfs_expand :: "grid \<Rightarrow> coord \<Rightarrow> bfs_state \<Rightarrow> bfs_state" where
  "bfs_expand maze cur st = foldl (bfs_visit maze cur) st directions4"

text \<open>
  The pair that decreases lexicographically in every search loop: the number of cells of a
  finite universe \<open>U\<close> not yet visited, then the length of the frontier.
\<close>

definition progress :: "coord set \<Rightarrow> coord set \<Rightarrow> nat \<Rightarrow> nat \<times> nat" where
  "progress U V k = (card (U - V), k)"

definition progress_rel :: "((nat \<times> nat) \<times> (nat \<times> nat)) set" where
  "progress_rel = less_than <*lex*> less_than"

lemma wf_progress_rel [simp]: "wf progress_rel"
  by (auto simp: progress_rel_def)

lemma finite_cells [simp]: "finite (cells maze)"
  by (simp add: cells_def)

lemma progress_rel_trans:
  "(a, b) \<in> progress_rel \<Longrightarrow> (b, c) \<in> progress_rel \<Longrightarrow> (a, c) \<in> progress_rel"
  by (cases a; cases b; cases c) (auto simp: progress_rel_def)

lemma progress_shrink:
  assumes "finite U" "U' \<subseteq> U" "V \<subseteq> V'" "k' < k"
  shows "(progress U' V' k', progress U V k) \<in> progress_rel"
proof -
  have "card (U' - V') \<le> card (U - V)"
    using assms by (intro card_mono) auto
  with assms(4) show ?thesis
    unfolding progress_def progress_rel_def in_lex_prod less_than_iff by linarith
qed

lemma progress_insert:
  assumes "finite U" "U' \<subseteq> U" "n \<in> U" "n \<notin> V" "insert n V \<subseteq> V'"
  shows "(progress U' V' k', progress U V k) \<in> progress_rel"
proof -
  have "U' - V' \<subset> U - V"
    using assms by auto
  then have "card (U' - V') < card (U - V)"
    using assms(1) by (intro psubset_card_mono) auto
  then show ?thesis
    unfolding progress_def progress_rel_def in_lex_prod less_than_iff by blast
qed

lemma foldl_below:
  assumes "\<And>st d. (m (f st d), m st) \<in> progress_rel \<or> m (f st d) = m st"
  shows "(m (foldl f st ds), m st) \<in> progress_rel \<or> m (foldl f st ds) = m st"
proof (induction ds arbitrary: st)
  case Nil
  show ?case by simp
next
  case (Cons d ds)
  from Cons.IH [of "f st d"] assms [of st d] show ?case
    by (auto intro: progress_rel_trans)
qed

lemma below_trans:
  "(a, b) \<in> progress_rel \<or> a = b \<Longrightarrow> (b, c) \<in> progress_rel \<Longrightarrow> (a, c) \<in> progress_rel"
  by (auto intro: progress_rel_trans)

lemma bfs_visit_below:
  "(progress (cells maze) (visited (bfs_visit maze cur st d))
        (length (queue (bfs_visit maze cur st d))),
    progress (cells maze) (visited st) (length (queue st))) \<in> progress_rel
   \<or> progress (cells maze) (visited (bfs_visit maze cur st d))
        (length (queue (bfs_visit maze cur st d)))
      = progress (cells maze) (visited st) (length (queue st))"
proof (cases "passable maze (move cur d) \<and> move cur d \<notin> visited st")
  case True
  then have "move cur d \<in> cells maze"
    by (simp add: passable_def cells_def mem_Times_iff)
  with True show ?thesis
    by (intro disjI1) (auto simp: bfs_visit_def Let_def intro!: progress_insert)
next
  case False
  then show ?thesis by (auto simp: bfs_visit_def Let_def)
qed

text \<open>The \<open>while\<close> body, entered with a non-empty queue.\<close>

definition bfs_body :: "grid \<Rightarrow> coord \<Rightarrow> bfs_state \<Rightarrow> bfs_state flow" where
  "bfs_body maze endp st =
     (let cur = hd (queue st);
          st1 = st\<lparr>queue := tl (queue st)\<rparr>
      in if cur = endp then Return st1
         else Continue (bfs_expand maze cur st1))"

lemma bfs_body_decreases:
  assumes "queue st \<noteq> []" "bfs_body maze endp st = Continue st'"
  shows "(progress (cells maze) (visited st') (length (queue st')),
          progress (cells maze) (visited st) (length (queue st))) \<in> progress_rel"
proof -
  let ?m = "\<lambda>s. progress (cells maze) (visited s) (length (queue s))"
  let ?st1 = "st\<lparr>queue := tl (queue st)\<rparr>"
  have st': "st' = bfs_expand maze (hd (queue st)) ?st1"
    using assms(2) by (simp add: bfs_body_def Let_def split: if_splits)
  have "(?m ?st1, ?m st) \<in> progress_rel"
    using assms(1) by (auto intro!: progress_shrink)
  moreover have "(?m st', ?m ?st1) \<in> progress_rel \<or> ?m st' = ?m ?st1"
    unfolding st' bfs_expand_def by (rule foldl_below) (rule bfs_visit_below)
  ultimately show ?thesis
    by (rule below_trans [rotated])
qed

function bfs_loop :: "grid \<Rightarrow> coord \<Rightarrow> bfs_state \<Rightarrow> bool \<times> bfs_state" where
  "bfs_loop maze endp st =
     (if queue st = [] then (False, st)
      else (case bfs_body maze endp st of
              Return st' \<Rightarrow> (True, st')
            | Continue st' \<Rightarrow> bfs_loop maze endp st'))"
  by pat_completeness auto
termination
  by (relation "inv_image progress_rel
        (\<lambda>(maze, endp, st). progress (cells maze) (visited st) (length (queue st)))")
     (simp_all add: bfs_body_decreases)

declare bfs_loop.simps [simp del]

definition bfs_init :: "coord \<Rightarrow> bfs_state" where
  "bfs_init start =
     \<lparr>visitedOrder = [start], visited = {start}, parentMap = [start \<mapsto> None],
      queue = [start]\<rparr>"

definition findPathBFS :: "grid \<Rightarrow> coord \<Rightarrow> coord \<Rightarrow> failure + path_result" where
  "findPathBFS maze start endp =
     (if maze = [] then Inl TypeError
      else if invalid_endpoint maze start \<or> invalid_endpoint maze endp
      then Inr \<lparr>visitedOrder = [], path = None\<rparr>
      else (let (found, st) = bfs_loop maze endp (bfs_init start)
            in finish found (parentMap st) endp (visitedOrder st)))"

section \<open>Random choices\<close>

text \<open>
  \<open>Math.random()\<close> is an unseeded source, so every function that draws from it takes the
  draws still to come as a list of naturals and hands back the rest; a list that has run
  out keeps answering \<open>0\<close>. A call that returns has read finitely many draws, so every
  value the program can return is the value of the model on some list.
  \<open>Math.floor(Math.random() * n)\<close> is any index below \<open>n\<close>: the next draw modulo \<open>n\<close>.
  \<open>Math.random() < 0.5\<close> is any boolean: whether the next draw is even.
  \<open>xs.sort(() => Math.random() - 0.5)\<close> reorders the array in place with a comparator
  that answers at random; the result is some permutation of \<open>xs\<close>, chosen here by one draw
  (\<open>shuffle k\<close> ranges over the permutations as \<open>k\<close> ranges over the naturals).
\<close>

type_synonym rand = "nat list"

definition draw :: "rand \<Rightarrow> nat" where
  "draw rnd = (case rnd of [] \<Rightarrow> 0 | x # _ \<Rightarrow> x)"

definition rest :: "rand \<Rightarrow> rand" where
  "rest rnd = tl rnd"

definition randomIndex :: "rand \<Rightarrow> nat \<Rightarrow> nat" where
  "randomIndex rnd n = (if n = 0 then 0 else draw rnd mod n)"

definition randomBool :: "rand \<Rightarrow> bool" where
  "randomBool rnd = even (draw rnd)"

fun permute_n :: "nat \<Rightarrow> nat \<Rightarrow> 'a list \<Rightarrow> 'a list" where
  "permute_n 0 k xs = []"
| "permute_n (Suc n) k xs =
     (let i = k mod Suc n
      in xs ! i # permute_n n (k div Suc n) (take i xs @ drop (Suc i) xs))"

definition shuffle :: "nat \<Rightarrow> 'a list \<Rightarrow> 'a list" where
  "shuffle k xs = permute_n (length xs) k xs"

lemma mset_permute_n: "length xs = n \<Longrightarrow> mset (permute_n n k xs) = mset xs"
proof (induction n arbitrary: k xs)
  case 0
  then show ?case by simp
next
  case (Suc n)
  let ?i = "k mod Suc n"
  have i: "?i < length xs" using Suc.prems by simp
  then have len: "length (take ?i xs @ drop (Suc ?i) xs) = n"
    using Suc.prems by simp
  have "mset xs = mset (take ?i xs @ xs ! ?i # drop (Suc ?i) xs)"
    using i by (simp add: id_take_nth_drop [symmetric])
  then show ?case
    using Suc.IH [OF len] by (simp add: Let_def)
qed

lemma mset_shuffle [simp]: "mset (shuffle k xs) = mset xs"
  by (simp add: shuffle_def mset_permute_n)

lemma set_shuffle [simp]: "set (shuffle k xs) = set xs"
  by (metis mset_shuffle set_mset_mset)

lemma length_shuffle [simp]: "length (shuffle k xs) = length xs"
  by (metis mset_shuffle size_mset)

section \<open>Depth-first search (dfs.ts)\<close>

text \<open>
  \<open>directions.sort(...)\<close> sorts the one \<open>directions\<close> array in place on every pass, so the
  array is part of the state.
\<close>

record dfs_state = search_state +
  stack :: "coord list"
  directions :: "coord list"
  rng :: rand

definition dfs_visit :: "grid \<Rightarrow> coord \<Rightarrow> dfs_state \<Rightarrow> coord \<Rightarrow> dfs_state" where
  "dfs_visit maze cur st d =
     (let n = move cur d
      in if passable maze n \<and> n \<notin> visited st
         then st\<lparr>visited := insert n (visited st),
                 visitedOrder := visitedOrder st @ [n],
                 parentMap := (parentMap st)(n \<mapsto> Some cur),
                 stack := stack st @ [n]\<rparr>
         else st)"

text \<open>One pass of the \<open>while\<close> body for a popped cell that is not the end.\<close>

definition dfs_expand :: "grid \<Rightarrow> coord \<Rightarrow> dfs_state \<Rightarrow> dfs_state" where
  "dfs_expand maze cur st =
     (let shuffledDirections = shuffle (draw (rng st)) (directions st);
          st1 = st\<lparr>directions := shuffledDirections, rng := rest (rng st)\<rparr>
      in foldl (dfs_visit maze cur) st1 shuffledDirections)"

lemma dfs_visit_below:
  "(progress (cells maze) (visited (dfs_visit maze cur st d))
        (length (stack (dfs_visit maze cur st d))),
    progress (cells maze) (visited st) (length (stack st))) \<in> progress_rel
   \<or> progress (cells maze) (visited (dfs_visit maze cur st d))
        (length (stack (dfs_visit maze cur st d)))
      = progress (cells maze) (visited st) (length (stack st))"
proof (cases "passable maze (move cur d) \<and> move cur d \<notin> visited st")
  case True
  then have "move cur d \<in> cells maze"
    by (simp add: passable_def cells_def mem_Times_iff)
  with True show ?thesis
    by (intro disjI1) (auto simp: dfs_visit_def Let_def intro!: progress_insert)
next
  case False
  then show ?thesis by (auto simp: dfs_visit_def Let_def)
qed

text \<open>The \<open>while\<close> body, entered with a non-empty stack.\<close>

definition dfs_body :: "grid \<Rightarrow> coord \<Rightarrow> dfs_state \<Rightarrow> dfs_state flow" where
  "dfs_body maze endp st =
     (let cur = last (stack st);
          st1 = st\<lparr>stack := butlast (stack st)\<rparr>
      in if cur = endp then Return st1
         else Continue (dfs_expand maze cur st1))"

lemma dfs_body_decreases:
  assumes "stack st \<noteq> []" "dfs_body maze endp st = Continue st'"
  shows "(progress (cells maze) (visited st') (length (stack st')),
          progress (cells maze) (visited st) (length (stack st))) \<in> progress_rel"
proof -
  let ?m = "\<lambda>s. progress (cells maze) (visited s) (length (stack s))"
  let ?st1 = "st\<lparr>stack := butlast (stack st)\<rparr>"
  let ?st2 = "?st1\<lparr>directions := shuffle (draw (rng ?st1)) (directions ?st1),
                    rng := rest (rng ?st1)\<rparr>"
  have st': "st' = dfs_expand maze (last (stack st)) ?st1"
    using assms(2) by (simp add: dfs_body_def Let_def split: if_splits)
  have "(?m ?st2, ?m st) \<in> progress_rel"
    using assms(1) by (auto intro!: progress_shrink)
  moreover have "(?m st', ?m ?st2) \<in> progress_rel \<or> ?m st' = ?m ?st2"
    unfolding st' dfs_expand_def Let_def by (rule foldl_below) (rule dfs_visit_below)
  ultimately show ?thesis
    by (rule below_trans [rotated])
qed

function dfs_loop :: "grid \<Rightarrow> coord \<Rightarrow> dfs_state \<Rightarrow> bool \<times> dfs_state" where
  "dfs_loop maze endp st =
     (if stack st = [] then (False, st)
      else (case dfs_body maze endp st of
              Return st' \<Rightarrow> (True, st')
            | Continue st' \<Rightarrow> dfs_loop maze endp st'))"
  by pat_completeness auto
termination
  by (relation "inv_image progress_rel
        (\<lambda>(maze, endp, st). progress (cells maze) (visited st) (length (stack st)))")
     (simp_all add: dfs_body_decreases)

declare dfs_loop.simps [simp del]

definition dfs_init :: "rand \<Rightarrow> coord \<Rightarrow> dfs_state" where
  "dfs_init rnd start =
     \<lparr>visitedOrder = [start], visited = {start}, parentMap = [start \<mapsto> None],
      stack = [start], directions = directions4, rng = rnd\<rparr>"

definition findPathDFS :: "rand \<Rightarrow> grid \<Rightarrow> coord \<Rightarrow> coord \<Rightarrow> failure + path_result" where
  "findPathDFS rnd maze start endp =
     (if maze = [] then Inl TypeError
      else if invalid_endpoint maze start \<or> invalid_endpoint maze endp
      then Inr \<lparr>visitedOrder = [], path = None\<rparr>
      else (let (pathFound, st) = dfs_loop maze endp (dfs_init rnd start)
            in finish pathFound (parentMap st) endp (visitedOrder st)))"

section \<open>A* search (aStar.ts)\<close>

definition heuristic :: "int \<Rightarrow> int \<Rightarrow> int \<Rightarrow> int \<Rightarrow> int" where
  "heuristic r1 c1 r2 c2 = \<bar>r1 - r2\<bar> + \<bar>c1 - c2\<bar>"

text \<open>The open set is an array that is sorted before every removal of its first entry.\<close>

record 'e open_state = search_state +
  openSet :: "'e list"

text \<open>An entry \<open>[f_cost, g_cost, row, col]\<close>.\<close>

type_synonym astar_entry = "int \<times> int \<times> int \<times> int"

record astar_state = "astar_entry open_state" +
  gCosts :: "coord \<rightharpoonup> int"

text \<open>\<open>Array.prototype.findIndex\<close>, with \<open>None\<close> for \<open>-1\<close>.\<close>

fun findIndex :: "('a \<Rightarrow> bool) \<Rightarrow> 'a list \<Rightarrow> nat option" where
  "findIndex P [] = None"
| "findIndex P (x # xs) = (if P x then Some 0 else map_option Suc (findIndex P xs))"

definition entry_coord :: "astar_entry \<Rightarrow> coord" where
  "entry_coord e = snd (snd e)"

text \<open>
  The block that starts at \<open>const existingIndex = openSet.findIndex(...)\<close>: an entry
  already in the open set has its f and g overwritten when the new g is smaller, and
  otherwise a new entry is pushed.
\<close>

definition astar_push :: "astar_entry list \<Rightarrow> coord \<Rightarrow> int \<Rightarrow> int \<Rightarrow> astar_entry list" where
  "astar_push es n neighborF tentativeGCost =
     (case findIndex (\<lambda>item. entry_coord item = n) es of
        Some existingIndex \<Rightarrow>
          (case es ! existingIndex of
             (f, g, r, c) \<Rightarrow>
               if g > tentativeGCost
               then es[existingIndex := (neighborF, tentativeGCost, r, c)]
               else es)
      | None \<Rightarrow> es @ [(neighborF, tentativeGCost, fst n, snd n)])"

definition astar_visit ::
  "grid \<Rightarrow> coord \<Rightarrow> coord \<Rightarrow> int \<Rightarrow> astar_state \<Rightarrow> coord \<Rightarrow> astar_state" where
  "astar_visit maze endp cur currentG st d =
     (let n = move cur d
      in if passable maze n
         then (let tentativeGCost = currentG + 1
               in if n \<notin> visited st
                     \<or> (case gCosts st n of None \<Rightarrow> True | Some g \<Rightarrow> tentativeGCost < g)
                  then (let neighborH = heuristic (fst n) (snd n) (fst endp) (snd endp);
                            neighborF = tentativeGCost + neighborH
                        in st\<lparr>gCosts := (gCosts st)(n \<mapsto> tentativeGCost),
                               parentMap := (parentMap st)(n \<mapsto> Some cur),
                               openSet := astar_push (openSet st) n neighborF tentativeGCost\<rparr>)
                  else st)
         else st)"

text \<open>One pass of the \<open>while\<close> body for a newly closed cell that is not the end.\<close>

definition astar_expand :: "grid \<Rightarrow> coord \<Rightarrow> coord \<Rightarrow> int \<Rightarrow> astar_state \<Rightarrow> astar_state" where
  "astar_expand maze endp cur currentG st =
     foldl (astar_visit maze endp cur currentG) st directions4"

text \<open>
  \<open>openSet.sort((a, b) => a[0] - b[0])\<close> is a stable sort on the f-cost, as
  \<open>sort_key\<close> is; \<open>openSet.shift()\<close> then removes the first entry.
\<close>

definition astar_sorted :: "astar_state \<Rightarrow> astar_entry list" where
  "astar_sorted st = sort_key fst (openSet st)"

lemma findIndex_Some:
  "findIndex P xs = Some i \<Longrightarrow> i < length xs \<and> P (xs ! i)"
proof (induction xs arbitrary: i)
  case Nil
  then show ?case by simp
next
  case (Cons x xs)
  then show ?case by (auto split: if_splits)
qed

lemma astar_visit_visited [simp]:
  "visited (astar_visit maze endp cur g st d) = visited st"
  by (simp add: astar_visit_def Let_def)

lemma astar_visit_visitedOrder [simp]:
  "visitedOrder (astar_visit maze endp cur g st d) = visitedOrder st"
  by (simp add: astar_visit_def Let_def)

lemma astar_push_coords:
  "entry_coord ` set (astar_push es n f g) \<subseteq> insert n (entry_coord ` set es)"
proof (cases "findIndex (\<lambda>item. entry_coord item = n) es")
  case None
  then show ?thesis by (auto simp: astar_push_def entry_coord_def)
next
  case (Some i)
  then have i: "i < length es" "entry_coord (es ! i) = n"
    using findIndex_Some [of "\<lambda>item. entry_coord item = n" es i] by auto
  obtain f0 g0 r c where e: "es ! i = (f0, g0, r, c)"
    by (cases "es ! i") auto
  with i have "entry_coord (f, g, r, c) = n"
    by (simp add: entry_coord_def)
  then have "entry_coord ` set (es[i := (f, g, r, c)]) \<subseteq> insert n (entry_coord ` set es)"
    using set_update_subset_insert [of es i "(f, g, r, c)"] by auto
  with Some e show ?thesis by (auto simp: astar_push_def)
qed

lemma astar_visit_openSet:
  "entry_coord ` set (openSet (astar_visit maze endp cur g st d))
     \<subseteq> entry_coord ` set (openSet st) \<union> cells maze"
proof (cases "passable maze (move cur d)")
  case False
  then show ?thesis by (simp add: astar_visit_def Let_def)
next
  case True
  then have n: "move cur d \<in> cells maze"
    by (simp add: passable_def cells_def mem_Times_iff)
  have "openSet (astar_visit maze endp cur g st d) = openSet st
    \<or> (\<exists>f' g'. openSet (astar_visit maze endp cur g st d)
          = astar_push (openSet st) (move cur d) f' g')"
    by (auto simp: astar_visit_def Let_def)
  then show ?thesis
  proof
    assume "openSet (astar_visit maze endp cur g st d) = openSet st"
    then show ?thesis by auto
  next
    assume "\<exists>f' g'. openSet (astar_visit maze endp cur g st d)
          = astar_push (openSet st) (move cur d) f' g'"
    then obtain f' g' where "openSet (astar_visit maze endp cur g st d)
          = astar_push (openSet st) (move cur d) f' g'" by blast
    then show ?thesis
      using n astar_push_coords [of "openSet st" "move cur d" f' g'] by auto
  qed
qed

lemma astar_expand_visited [simp]:
  "visited (foldl (astar_visit maze endp cur g) st ds) = visited st"
  by (induction ds arbitrary: st) auto

lemma astar_expand_visitedOrder [simp]:
  "visitedOrder (foldl (astar_visit maze endp cur g) st ds) = visitedOrder st"
  by (induction ds arbitrary: st) auto

lemma astar_expand_openSet:
  "entry_coord ` set (openSet (foldl (astar_visit maze endp cur g) st ds))
     \<subseteq> entry_coord ` set (openSet st) \<union> cells maze"
proof (induction ds arbitrary: st)
  case Nil
  show ?case by simp
next
  case (Cons d ds)
  show ?case
    using Cons.IH [of "astar_visit maze endp cur g st d"]
      astar_visit_openSet [of maze endp cur g st d]
    by auto
qed

text \<open>Termination measure of a search over a sorted open set.\<close>

definition open_measure ::
  "('e \<Rightarrow> coord) \<Rightarrow> grid \<Rightarrow> ('e, 'z) open_state_scheme \<Rightarrow> nat \<times> nat" where
  "open_measure cf maze st =
     progress (cells maze \<union> cf ` set (openSet st)) (visited st) (length (openSet st))"

lemma open_measure_pop:
  assumes "openSet st \<noteq> []" "mset es = mset (openSet st)"
  shows "(open_measure cf maze (st\<lparr>openSet := tl es\<rparr>), open_measure cf maze st) \<in> progress_rel"
proof -
  have s: "set es = set (openSet st)" and l: "length es = length (openSet st)"
    using assms(2) by (metis set_mset_mset, metis size_mset)
  then have ne: "es \<noteq> []" using assms(1) by auto
  then have "set (tl es) \<subseteq> set (openSet st)"
    using s by (auto dest: list.set_sel(2))
  moreover have "length (tl es) < length (openSet st)"
    using ne l by (cases es) auto
  ultimately show ?thesis
    unfolding open_measure_def by (auto intro!: progress_shrink)
qed

lemma open_measure_close:
  assumes "openSet st \<noteq> []" "mset es = mset (openSet st)"
    and "cf (hd es) \<notin> visited st"
    and "visited st' = insert (cf (hd es)) (visited st)"
    and "cf ` set (openSet st') \<subseteq> cf ` set (tl es) \<union> cells maze"
  shows "(open_measure cf maze st', open_measure cf maze st) \<in> progress_rel"
proof -
  have s: "set es = set (openSet st)"
    using assms(2) by (metis set_mset_mset)
  then have ne: "es \<noteq> []" using assms(1) by auto
  then have t: "set (tl es) \<subseteq> set (openSet st)" and h: "hd es \<in> set (openSet st)"
    using s by (auto dest: list.set_sel(2))
  have "cf ` set (openSet st') \<subseteq> cf ` set (openSet st) \<union> cells maze"
    using assms(5) t by blast
  then have "cells maze \<union> cf ` set (openSet st') \<subseteq> cells maze \<union> cf ` set (openSet st)"
    by blast
  moreover have "cf (hd es) \<in> cells maze \<union> cf ` set (openSet st)"
    using h by blast
  ultimately show ?thesis
    unfolding open_measure_def using assms(3,4)
    by (intro progress_insert [where n = "cf (hd es)"]) auto
qed

text \<open>The \<open>while\<close> body, entered with a non-empty open set.\<close>

definition astar_body :: "grid \<Rightarrow> coord \<Rightarrow> astar_state \<Rightarrow> astar_state flow" where
  "astar_body maze endp st =
     (let current = hd (astar_sorted st);
          currentG = fst (snd current);
          cur = entry_coord current;
          st1 = st\<lparr>openSet := tl (astar_sorted st)\<rparr>
      in if cur \<in> visited st1 then Continue st1
         else (let st2 = st1\<lparr>visited := insert cur (visited st1),
                               visitedOrder := visitedOrder st1 @ [cur]\<rparr>
               in if cur = endp then Return st2
                  else Continue (astar_expand maze endp cur currentG st2)))"

lemma astar_body_decreases:
  assumes ne: "openSet st \<noteq> []" and c: "astar_body maze endp st = Continue st'"
  shows "(open_measure entry_coord maze st', open_measure entry_coord maze st) \<in> progress_rel"
proof (cases "entry_coord (hd (astar_sorted st)) \<in> visited st")
  case True
  with c have "st' = st\<lparr>openSet := tl (astar_sorted st)\<rparr>"
    by (simp add: astar_body_def Let_def)
  then show ?thesis
    using open_measure_pop [of st "astar_sorted st" entry_coord maze] ne
    by (simp add: astar_sorted_def)
next
  case False
  let ?cur = "entry_coord (hd (astar_sorted st))"
  let ?st2 = "st\<lparr>openSet := tl (astar_sorted st), visited := insert ?cur (visited st),
                 visitedOrder := visitedOrder st @ [?cur]\<rparr>"
  from False c have st': "st' = astar_expand maze endp ?cur (fst (snd (hd (astar_sorted st)))) ?st2"
    by (simp add: astar_body_def Let_def split: if_splits)
  show ?thesis
  proof (rule open_measure_close [where es = "astar_sorted st"])
    show "openSet st \<noteq> []" by (rule ne)
    show "mset (astar_sorted st) = mset (openSet st)" by (simp add: astar_sorted_def)
    show "?cur \<notin> visited st" by (rule False)
    show "visited st' = insert ?cur (visited st)"
      by (simp add: st' astar_expand_def)
    show "entry_coord ` set (openSet st') \<subseteq> entry_coord ` set (tl (astar_sorted st)) \<union> cells maze"
      using astar_expand_openSet [of maze endp ?cur _ ?st2 directions4]
      by (simp add: st' astar_expand_def)
  qed
qed

function astar_loop :: "grid \<Rightarrow> coord \<Rightarrow> astar_state \<Rightarrow> bool \<times> astar_state" where
  "astar_loop maze endp st =
     (if openSet st = [] then (False, st)
      else (case astar_body maze endp st of
              Return st' \<Rightarrow> (True, st')
            | Continue st' \<Rightarrow> astar_loop maze endp st'))"
  by pat_completeness auto
termination
  by (relation "inv_image progress_rel (\<lambda>(maze, endp, st). open_measure entry_coord maze st)")
     (simp_all add: astar_body_decreases)

declare astar_loop.simps [simp del]

definition astar_init :: "coord \<Rightarrow> coord \<Rightarrow> astar_state" where
  "astar_init start endp =
     (let startH = heuristic (fst start) (snd start) (fst endp) (snd endp)
      in \<lparr>visitedOrder = [], visited = {}, parentMap = [start \<mapsto> None],
          openSet = [(startH, 0, fst start, snd start)], gCosts = [start \<mapsto> 0]\<rparr>)"

definition findPathAStar :: "grid \<Rightarrow> coord \<Rightarrow> coord \<Rightarrow> failure + path_result" where
  "findPathAStar maze start endp =
     (if maze = [] then Inl TypeError
      else if invalid_endpoint maze start \<or> invalid_endpoint maze endp
      then Inr \<lparr>visitedOrder = [], path = None\<rparr>
      else (let (found, st) = astar_loop maze endp (astar_init start endp)
            in finish found (parentMap st) endp (visitedOrder st)))"

section \<open>Greedy best-first search (greedy.ts)\<close>

text \<open>An entry \<open>[h_cost, row, col]\<close>.\<close>

type_synonym greedy_entry = "int \<times> int \<times> int"
type_synonym greedy_state = "greedy_entry open_state"

definition greedy_visit :: "grid \<Rightarrow> coord \<Rightarrow> coord \<Rightarrow> greedy_state \<Rightarrow> coord \<Rightarrow> greedy_state" where
  "greedy_visit maze endp cur st d =
     (let n = move cur d
      in if passable maze n \<and> n \<notin> visited st
         then (let neighborH = heuristic (fst n) (snd n) (fst endp) (snd endp)
               in st\<lparr>openSet := openSet st @ [(neighborH, fst n, snd n)],
                      parentMap := (parentMap st)(n \<mapsto> Some cur)\<rparr>)
         else st)"

definition greedy_expand :: "grid \<Rightarrow> coord \<Rightarrow> coord \<Rightarrow> greedy_state \<Rightarrow> greedy_state" where
  "greedy_expand maze endp cur st = foldl (greedy_visit maze endp cur) st directions4"

definition greedy_sorted :: "greedy_state \<Rightarrow> greedy_entry list" where
  "greedy_sorted st = sort_key fst (openSet st)"

lemma greedy_visit_visited [simp]:
  "visited (greedy_visit maze endp cur st d) = visited st"
  by (simp add: greedy_visit_def Let_def)

lemma greedy_visit_visitedOrder [simp]:
  "visitedOrder (greedy_visit maze endp cur st d) = visitedOrder st"
  by (simp add: greedy_visit_def Let_def)

lemma greedy_visit_openSet:
  "snd ` set (openSet (greedy_visit maze endp cur st d))
     \<subseteq> snd ` set (openSet st) \<union> cells maze"
  by (auto simp: greedy_visit_def Let_def passable_def cells_def mem_Times_iff)

lemma greedy_expand_visited [simp]:
  "visited (foldl (greedy_visit maze endp cur) st ds) = visited st"
  by (induction ds arbitrary: st) auto

lemma greedy_expand_visitedOrder [simp]:
  "visitedOrder (foldl (greedy_visit maze endp cur) st ds) = visitedOrder st"
  by (induction ds arbitrary: st) auto

lemma greedy_expand_openSet:
  "snd ` set (openSet (foldl (greedy_visit maze endp cur) st ds))
     \<subseteq> snd ` set (openSet st) \<union> cells maze"
proof (induction ds arbitrary: st)
  case Nil
  show ?case by simp
next
  case (Cons d ds)
  show ?case
    using Cons.IH [of "greedy_visit maze endp cur st d"]
      greedy_visit_openSet [of maze endp cur st d]
    by auto
qed

text \<open>The \<open>while\<close> body, entered with a non-empty open set.\<close>

definition greedy_body :: "grid \<Rightarrow> coord \<Rightarrow> greedy_state \<Rightarrow> greedy_state flow" where
  "greedy_body maze endp st =
     (let cur = snd (hd (greedy_sorted st));
          st1 = st\<lparr>openSet := tl (greedy_sorted st)\<rparr>
      in if cur \<in> visited st1 then Continue st1
         else (let st2 = st1\<lparr>visited := insert cur (visited st1),
                               visitedOrder := visitedOrder st1 @ [cur]\<rparr>
               in if cur = endp then Return st2
                  else Continue (greedy_expand maze endp cur st2)))"

lemma greedy_body_decreases:
  assumes ne: "openSet st \<noteq> []" and c: "greedy_body maze endp st = Continue st'"
  shows "(open_measure snd maze st', open_measure snd maze st) \<in> progress_rel"
proof (cases "snd (hd (greedy_sorted st)) \<in> visited st")
  case True
  with c have "st' = st\<lparr>openSet := tl (greedy_sorted st)\<rparr>"
    by (simp add: greedy_body_def Let_def)
  then show ?thesis
    using open_measure_pop [of st "greedy_sorted st" snd maze] ne
    by (simp add: greedy_sorted_def)
next
  case False
  let ?cur = "snd (hd (greedy_sorted st))"
  let ?st2 = "st\<lparr>openSet := tl (greedy_sorted st), visited := insert ?cur (visited st),
                 visitedOrder := visitedOrder st @ [?cur]\<rparr>"
  from False c have st': "st' = greedy_expand maze endp ?cur ?st2"
    by (simp add: greedy_body_def Let_def split: if_splits)
  show ?thesis
  proof (rule open_measure_close [where es = "greedy_sorted st"])
    show "openSet st \<noteq> []" by (rule ne)
    show "mset (greedy_sorted st) = mset (openSet st)" by (simp add: greedy_sorted_def)
    show "?cur \<notin> visited st" by (rule False)
    show "visited st' = insert ?cur (visited st)"
      by (simp add: st' greedy_expand_def)
    show "snd ` set (openSet st') \<subseteq> snd ` set (tl (greedy_sorted st)) \<union> cells maze"
      using greedy_expand_openSet [of maze endp ?cur ?st2 directions4]
      by (simp add: st' greedy_expand_def)
  qed
qed

function greedy_loop :: "grid \<Rightarrow> coord \<Rightarrow> greedy_state \<Rightarrow> bool \<times> greedy_state" where
  "greedy_loop maze endp st =
     (if openSet st = [] then (False, st)
      else (case greedy_body maze endp st of
              Return st' \<Rightarrow> (True, st')
            | Continue st' \<Rightarrow> greedy_loop maze endp st'))"
  by pat_completeness auto
termination
  by (relation "inv_image progress_rel (\<lambda>(maze, endp, st). open_measure snd maze st)")
     (simp_all add: greedy_body_decreases)

declare greedy_loop.simps [simp del]

definition greedy_init :: "coord \<Rightarrow> coord \<Rightarrow> greedy_state" where
  "greedy_init start endp =
     (let startH = heuristic (fst start) (snd start) (fst endp) (snd endp)
      in \<lparr>visitedOrder = [], visited = {}, parentMap = [start \<mapsto> None],
          openSet = [(startH, fst start, snd start)]\<rparr>)"

definition findPathGreedy :: "grid \<Rightarrow> coord \<Rightarrow> coord \<Rightarrow> failure + path_result" where
  "findPathGreedy maze start endp =
     (if maze = [] then Inl TypeError
      else if invalid_endpoint maze start \<or> invalid_endpoint maze endp
      then Inr \<lparr>visitedOrder = [], path = None\<rparr>
      else (let (found, st) = greedy_loop maze endp (greedy_init start endp)
            in finish found (parentMap st) endp (visitedOrder st)))"

section \<open>Random mouse (randomMouse.ts)\<close>

text \<open>
  The walk keeps its position (\<open>currentRow\<close>, \<open>currentCol\<close>), the stack \<open>path\<close>
  (here \<open>pathStack\<close>, as \<open>path\<close> names the field of the result), the set
  \<open>visitedCheck\<close>, the step counter and the random source.
\<close>

record mouse_state = trace +
  visitedCheck :: "coord set"
  pathStack :: "coord list"
  current :: coord
  steps :: int
  mrng :: rand

text \<open>The passable neighbours of the current cell, in the order of \<open>directions\<close>.\<close>

definition possibleMoves :: "grid \<Rightarrow> coord \<Rightarrow> coord list" where
  "possibleMoves maze cur = filter (passable maze) (map (move cur) directions4)"

definition unvisitedMoves :: "grid \<Rightarrow> mouse_state \<Rightarrow> coord list" where
  "unvisitedMoves maze st =
     filter (\<lambda>n. n \<notin> visitedCheck st) (possibleMoves maze (current st))"

definition backtrackMoves :: "grid \<Rightarrow> mouse_state \<Rightarrow> coord list" where
  "backtrackMoves maze st =
     (let previousCell = (if length (pathStack st) > 1
                          then Some (pathStack st ! (length (pathStack st) - 2))
                          else None)
      in filter (\<lambda>n. previousCell \<noteq> Some n) (possibleMoves maze (current st)))"

text \<open>
  One pass of the \<open>while\<close> body. \<open>Return\<close> is where the source leaves the loop with
  \<open>break\<close>.
\<close>

definition mouse_body :: "grid \<Rightarrow> mouse_state \<Rightarrow> mouse_state flow" where
  "mouse_body maze st0 =
     (let st = st0\<lparr>steps := steps st0 + 1\<rparr>
      in if length (unvisitedMoves maze st) > 0
         then (let next = unvisitedMoves maze st
                            ! randomIndex (mrng st) (length (unvisitedMoves maze st))
               in Continue (st\<lparr>current := next,
                               pathStack := pathStack st @ [next],
                               visitedCheck := insert next (visitedCheck st),
                               visitedOrder := visitedOrder st @ [next],
                               mrng := rest (mrng st)\<rparr>))
         else if length (possibleMoves maze (current st)) > 1
         then (if length (backtrackMoves maze st) > 0
               then (let next = backtrackMoves maze st
                                  ! randomIndex (mrng st) (length (backtrackMoves maze st))
                     in Continue (st\<lparr>current := next,
                                     pathStack := pathStack st @ [next],
                                     mrng := rest (mrng st)\<rparr>))
               else Return st)
         else if length (possibleMoves maze (current st)) = 1 \<and> length (pathStack st) > 1
         then (let popped = butlast (pathStack st)
               in if length popped > 0
                  then Continue (st\<lparr>pathStack := popped, current := last popped\<rparr>)
                  else Return (st\<lparr>pathStack := popped\<rparr>))
         else Return st)"

lemma mouse_body_steps [simp]: "steps (flow_state (mouse_body maze st)) = steps st + 1"
  by (simp add: mouse_body_def Let_def)

function mouse_loop :: "grid \<Rightarrow> coord \<Rightarrow> int \<Rightarrow> mouse_state \<Rightarrow> mouse_state" where
  "mouse_loop maze endp maxSteps st =
     (if current st \<noteq> endp \<and> steps st < maxSteps
      then (case mouse_body maze st of
              Continue st' \<Rightarrow> mouse_loop maze endp maxSteps st'
            | Return st' \<Rightarrow> st')
      else st)"
  by pat_completeness auto
termination
proof (relation "measure (\<lambda>(maze, endp, maxSteps, st). nat (maxSteps - steps st))")
  show "wf (measure (\<lambda>(maze, endp, maxSteps, st). nat (maxSteps - steps st)))"
    by simp
next
  fix maze :: grid and endp :: coord and maxSteps :: int and st y :: mouse_state
  assume a: "current st \<noteq> endp \<and> steps st < maxSteps"
    and x: "mouse_body maze st = Continue y"
  have "steps y = steps (flow_state (mouse_body maze st))"
    using x by simp
  then have "steps y = steps st + 1"
    by simp
  with a show "((maze, endp, maxSteps, y), (maze, endp, maxSteps, st))
      \<in> measure (\<lambda>(maze, endp, maxSteps, st). nat (maxSteps - steps st))"
    by simp
qed

declare mouse_loop.simps [simp del]

definition mouse_init :: "rand \<Rightarrow> coord \<Rightarrow> mouse_state" where
  "mouse_init rnd start =
     \<lparr>visitedOrder = [start], visitedCheck = {start}, pathStack = [start],
      current = start, steps = 0, mrng = rnd\<rparr>"

definition findPathRandomMouse ::
  "rand \<Rightarrow> grid \<Rightarrow> coord \<Rightarrow> coord \<Rightarrow> int \<Rightarrow> failure + path_result" where
  "findPathRandomMouse rnd maze start endp maxSteps =
     (if maze = [] then Inl TypeError
      else if invalid_endpoint maze start \<or> invalid_endpoint maze endp
      then Inr \<lparr>visitedOrder = [], path = None\<rparr>
      else (let st = mouse_loop maze endp maxSteps (mouse_init rnd start)
            in if current st = endp
               then Inr \<lparr>visitedOrder = visitedOrder st, path = Some (pathStack st)\<rparr>
               else Inr \<lparr>visitedOrder = visitedOrder st, path = None\<rparr>))"

section \<open>Properties of the pathfinders\<close>

text \<open>The words of the specification about a coordinate of a grid.\<close>

definition inBounds :: "grid \<Rightarrow> coord \<Rightarrow> bool" where
  "inBounds maze p = (0 \<le> fst p \<and> fst p < numRows maze \<and> 0 \<le> snd p \<and> snd p < numCols maze)"

definition isWall :: "grid \<Rightarrow> coord \<Rightarrow> bool" where
  "isWall maze p = (cell maze (fst p) (snd p) = Some 1)"

definition isPath :: "grid \<Rightarrow> coord \<Rightarrow> bool" where
  "isPath maze p = (cell maze (fst p) (snd p) = Some 0)"

text \<open>The 3 by 3 grid of the 1 by 1 maze.\<close>

definition maze1x1 :: grid where
  "maze1x1 = [[1, 1, 1], [0, 0, 0], [1, 1, 1]]"

lemma invalid_endpoint_iff:
  "invalid_endpoint maze p \<longleftrightarrow> \<not> inBounds maze p \<or> isWall maze p"
  by (auto simp: invalid_endpoint_def inBounds_def isWall_def)

lemma valid_endpoint:
  "inBounds maze p \<Longrightarrow> isPath maze p \<Longrightarrow> \<not> invalid_endpoint maze p"
  by (auto simp: invalid_endpoint_def inBounds_def isPath_def)

lemma inBounds_nonempty: "inBounds maze p \<Longrightarrow> maze \<noteq> []"
  by (auto simp: inBounds_def numRows_def)

text \<open>
  C4. If either endpoint is out of bounds or on a wall, each of the five pathfinders
  returns \<open>{ path: null, visitedOrder: [] }\<close>. The test comes before the initial state is
  built: the result holds no visited cell, not even the start, and does not depend on
  the random source or on the step budget. (A grid has at least one row; on the empty
  array \<open>maze[0].length\<close> throws before the test.)
\<close>

theorem invalid_endpoint_fails_fast:
  assumes "maze \<noteq> []"
    and "\<not> inBounds maze start \<or> isWall maze start \<or> \<not> inBounds maze endp \<or> isWall maze endp"
  shows "findPathBFS maze start endp = Inr \<lparr>visitedOrder = [], path = None\<rparr>
       \<and> findPathDFS rnd maze start endp = Inr \<lparr>visitedOrder = [], path = None\<rparr>
       \<and> findPathAStar maze start endp = Inr \<lparr>visitedOrder = [], path = None\<rparr>
       \<and> findPathGreedy maze start endp = Inr \<lparr>visitedOrder = [], path = None\<rparr>
       \<and> findPathRandomMouse rnd' maze start endp maxSteps
           = Inr \<lparr>visitedOrder = [], path = None\<rparr>"
proof -
  have "invalid_endpoint maze start \<or> invalid_endpoint maze endp"
    using assms(2) by (auto simp: invalid_endpoint_iff)
  with assms(1) show ?thesis
    by (simp add: findPathBFS_def findPathDFS_def findPathAStar_def findPathGreedy_def
        findPathRandomMouse_def)
qed

theorem invalid_endpoint_fails_fast_witness:
  "findPathBFS maze1x1 (0, 0) (1, 2) = Inr \<lparr>visitedOrder = [], path = None\<rparr>
   \<and> findPathDFS [] maze1x1 (0, 0) (1, 2) = Inr \<lparr>visitedOrder = [], path = None\<rparr>
   \<and> findPathAStar maze1x1 (0, 0) (1, 2) = Inr \<lparr>visitedOrder = [], path = None\<rparr>
   \<and> findPathGreedy maze1x1 (0, 0) (1, 2) = Inr \<lparr>visitedOrder = [], path = None\<rparr>
   \<and> findPathRandomMouse [] maze1x1 (0, 0) (1, 2) 10
       = Inr \<lparr>visitedOrder = [], path = None\<rparr>"
proof -
  have ne: "maze1x1 \<noteq> []"
    by (simp add: maze1x1_def)
  have bad: "\<not> inBounds maze1x1 (0, 0) \<or> isWall maze1x1 (0, 0)
      \<or> \<not> inBounds maze1x1 (1, 2) \<or> isWall maze1x1 (1, 2)"
    by (simp add: maze1x1_def isWall_def cell_def)
  show ?thesis
    by (rule invalid_endpoint_fails_fast [OF ne bad])
qed

text \<open>
  C10. With \<open>start = end = s\<close>, an in-bounds path cell, each of the five pathfinders
  returns \<open>path = [s]\<close> and \<open>visitedOrder = [s]\<close>; for the random mouse this holds for
  every step budget, in particular for every \<open>maxSteps \<ge> 1\<close>.
\<close>

theorem start_is_end:
  assumes "inBounds maze s" and "isPath maze s"
  shows "findPathBFS maze s s = Inr \<lparr>visitedOrder = [s], path = Some [s]\<rparr>
       \<and> findPathDFS rnd maze s s = Inr \<lparr>visitedOrder = [s], path = Some [s]\<rparr>
       \<and> findPathAStar maze s s = Inr \<lparr>visitedOrder = [s], path = Some [s]\<rparr>
       \<and> findPathGreedy maze s s = Inr \<lparr>visitedOrder = [s], path = Some [s]\<rparr>
       \<and> findPathRandomMouse rnd' maze s s maxSteps
           = Inr \<lparr>visitedOrder = [s], path = Some [s]\<rparr>"
proof -
  have ne: "maze \<noteq> []" and ok: "\<not> invalid_endpoint maze s"
    using assms inBounds_nonempty [of maze s] valid_endpoint [of maze s] by auto
  have fin: "finish True [s \<mapsto> None] s [s] = Inr \<lparr>visitedOrder = [s], path = Some [s]\<rparr>"
    by (simp add: finish_def reconstruct.simps)
  have bfs: "bfs_loop maze s (bfs_init s) = (True, (bfs_init s)\<lparr>queue := []\<rparr>)"
    by (subst bfs_loop.simps) (simp add: bfs_init_def bfs_body_def)
  have dfs: "dfs_loop maze s (dfs_init rnd s) = (True, (dfs_init rnd s)\<lparr>stack := []\<rparr>)"
    by (subst dfs_loop.simps) (simp add: dfs_init_def dfs_body_def)
  have astar: "astar_loop maze s (astar_init s s)
      = (True, (astar_init s s)\<lparr>openSet := [], visited := {s}, visitedOrder := [s]\<rparr>)"
    by (subst astar_loop.simps)
      (simp add: astar_init_def astar_body_def astar_sorted_def entry_coord_def)
  have greedy: "greedy_loop maze s (greedy_init s s)
      = (True, (greedy_init s s)\<lparr>openSet := [], visited := {s}, visitedOrder := [s]\<rparr>)"
    by (subst greedy_loop.simps)
      (simp add: greedy_init_def greedy_body_def greedy_sorted_def)
  have mouse: "mouse_loop maze s maxSteps (mouse_init rnd' s) = mouse_init rnd' s"
    by (subst mouse_loop.simps) (simp add: mouse_init_def)
  show ?thesis
    using ne ok fin
    by (simp add: findPathBFS_def findPathDFS_def findPathAStar_def findPathGreedy_def
        findPathRandomMouse_def bfs dfs astar greedy mouse)
      (simp add: bfs_init_def dfs_init_def astar_init_def greedy_init_def mouse_init_def)
qed

theorem start_is_end_witness:
  "findPathBFS maze1x1 (1, 1) (1, 1) = Inr \<lparr>visitedOrder = [(1, 1)], path = Some [(1, 1)]\<rparr>
   \<and> findPathDFS [] maze1x1 (1, 1) (1, 1)
       = Inr \<lparr>visitedOrder = [(1, 1)], path = Some [(1, 1)]\<rparr>
   \<and> findPathAStar maze1x1 (1, 1) (1, 1)
       = Inr \<lparr>visitedOrder = [(1, 1)], path = Some [(1, 1)]\<rparr>
   \<and> findPathGreedy maze1x1 (1, 1) (1, 1)
       = Inr \<lparr>visitedOrder = [(1, 1)], path = Some [(1, 1)]\<rparr>
   \<and> findPathRandomMouse [] maze1x1 (1, 1) (1, 1) 1
       = Inr \<lparr>visitedOrder = [(1, 1)], path = Some [(1, 1)]\<rparr>"
proof -
  have b: "inBounds maze1x1 (1, 1)"
    by (simp add: maze1x1_def inBounds_def numRows_def numCols_def)
  have p: "isPath maze1x1 (1, 1)"
    by (simp add: maze1x1_def isPath_def cell_def)
  show ?thesis
    by (rule start_is_end [OF b p])
qed

subsection \<open>Random mouse with a budget of one step\<close>

lemma randomIndex_less: "0 < n \<Longrightarrow> randomIndex rnd n < n"
  by (simp add: randomIndex_def)

lemma nth_randomIndex_mem: "xs \<noteq> [] \<Longrightarrow> xs ! randomIndex rnd (length xs) \<in> set xs"
  by (simp add: randomIndex_less)

lemma mouse_first_move:
  assumes "pathStack st = [current st]"
  shows "current (flow_state (mouse_body maze st))
      \<in> insert (current st) (set (map (move (current st)) directions4))"
proof -
  let ?st = "st\<lparr>steps := steps st + 1\<rparr>"
  have pm: "set (possibleMoves maze (current st)) \<subseteq> set (map (move (current st)) directions4)"
    by (auto simp: possibleMoves_def)
  have um: "set (unvisitedMoves maze ?st) \<subseteq> set (possibleMoves maze (current st))"
    by (auto simp: unvisitedMoves_def)
  have bm: "set (backtrackMoves maze ?st) \<subseteq> set (possibleMoves maze (current st))"
    by (auto simp: backtrackMoves_def Let_def)
  have u: "unvisitedMoves maze ?st \<noteq> [] \<Longrightarrow>
      unvisitedMoves maze ?st ! randomIndex (mrng st) (length (unvisitedMoves maze ?st))
        \<in> set (map (move (current st)) directions4)"
    using um pm nth_randomIndex_mem [of "unvisitedMoves maze ?st" "mrng st"] by blast
  have b: "backtrackMoves maze ?st \<noteq> [] \<Longrightarrow>
      backtrackMoves maze ?st ! randomIndex (mrng st) (length (backtrackMoves maze ?st))
        \<in> set (map (move (current st)) directions4)"
    using bm pm nth_randomIndex_mem [of "backtrackMoves maze ?st" "mrng st"] by blast
  show ?thesis
  proof (cases "unvisitedMoves maze ?st = []")
    case False
    then have "current (flow_state (mouse_body maze st))
        = unvisitedMoves maze ?st ! randomIndex (mrng st) (length (unvisitedMoves maze ?st))"
      by (simp add: mouse_body_def Let_def)
    with u [OF False] show ?thesis by simp
  next
    case um0: True
    show ?thesis
    proof (cases "length (possibleMoves maze (current st)) > 1 \<and> backtrackMoves maze ?st \<noteq> []")
      case True
      with um0 have "current (flow_state (mouse_body maze st))
          = backtrackMoves maze ?st ! randomIndex (mrng st) (length (backtrackMoves maze ?st))"
        by (simp add: mouse_body_def Let_def)
      with b True show ?thesis by simp
    next
      case False
      with um0 assms have "current (flow_state (mouse_body maze st)) = current st"
        by (simp add: mouse_body_def Let_def)
      then show ?thesis by simp
    qed
  qed
qed

lemma mouse_loop_one_step:
  assumes "steps st = 0" "current st \<noteq> endp"
  shows "mouse_loop maze endp 1 st = flow_state (mouse_body maze st)"
proof (cases "mouse_body maze st")
  case (Continue st')
  then have "steps st' = 1"
    using mouse_body_steps [of maze st] assms(1) by simp
  then have "mouse_loop maze endp 1 st' = st'"
    by (subst mouse_loop.simps) simp
  with Continue assms show ?thesis
    by (subst mouse_loop.simps) simp
next
  case (Return st')
  with assms show ?thesis
    by (subst mouse_loop.simps) simp
qed

text \<open>
  C8 as stated fails: with a budget of one step the mouse does take one step, so an end
  next to the start is reached. On the 3 by 3 grid of the 1 by 1 maze, from the entrance
  \<open>(1,0)\<close> to the cell \<open>(1,1)\<close>, the only move is onto the end.
\<close>

theorem mouse_one_step_reaches_neighbour:
  "findPathRandomMouse [] maze1x1 (1, 0) (1, 1) 1
     = Inr \<lparr>visitedOrder = [(1, 0), (1, 1)], path = Some [(1, 0), (1, 1)]\<rparr>"
  by code_simp

text \<open>
  C8, amended. For every maze, every valid start and end where the end is neither the
  start nor one of its four neighbours, and every outcome of the random choices,
  \<open>findPathRandomMouse\<close> with \<open>maxSteps = 1\<close> returns \<open>path: null\<close>.
\<close>

theorem mouse_one_step_no_path:
  assumes "inBounds maze start" "\<not> isWall maze start" "inBounds maze endp" "\<not> isWall maze endp"
    and "endp \<noteq> start" and "endp \<notin> set (map (move start) directions4)"
  shows "\<exists>vo. findPathRandomMouse rnd maze start endp 1 = Inr \<lparr>visitedOrder = vo, path = None\<rparr>"
proof -
  let ?st0 = "mouse_init rnd start"
  have ne: "maze \<noteq> []"
    using assms(1) by (rule inBounds_nonempty)
  have ok: "\<not> invalid_endpoint maze start" "\<not> invalid_endpoint maze endp"
    using assms(1-4) by (simp_all add: invalid_endpoint_iff)
  have "current (flow_state (mouse_body maze ?st0))
      \<in> insert (current ?st0) (set (map (move (current ?st0)) directions4))"
    by (rule mouse_first_move) (simp add: mouse_init_def)
  then have far: "current (flow_state (mouse_body maze ?st0)) \<noteq> endp"
    using assms(5,6) by (auto simp: mouse_init_def)
  have "mouse_loop maze endp 1 ?st0 = flow_state (mouse_body maze ?st0)"
    using assms(5) by (intro mouse_loop_one_step) (simp_all add: mouse_init_def)
  with far ne ok show ?thesis
    by (simp add: findPathRandomMouse_def)
qed

theorem mouse_one_step_no_path_witness:
  "\<exists>vo. findPathRandomMouse [] maze1x1 (1, 0) (1, 2) 1
     = Inr \<lparr>visitedOrder = vo, path = None\<rparr>"
proof -
  have b: "inBounds maze1x1 (1, 0)" "inBounds maze1x1 (1, 2)"
    by (simp_all add: maze1x1_def inBounds_def numRows_def numCols_def)
  have w: "\<not> isWall maze1x1 (1, 0)" "\<not> isWall maze1x1 (1, 2)"
    by (simp_all add: maze1x1_def isWall_def cell_def)
  have d: "(1, 2) \<noteq> ((1, 0) :: coord)"
    by simp
  have n: "(1, 2) \<notin> set (map (move (1, 0)) directions4)"
    by (simp add: directions4_def move_def)
  show ?thesis
    by (rule mouse_one_step_no_path [OF b(1) w(1) b(2) w(2) d n])
qed

subsection \<open>The visited trace has no repetition\<close>

text \<open>
  The invariant of the four graph searches: \<open>visitedOrder\<close> lists cells of \<open>visited\<close>,
  each once.
\<close>

definition trace_ok :: "'a search_state_scheme \<Rightarrow> bool" where
  "trace_ok st = (distinct (visitedOrder st) \<and> set (visitedOrder st) \<subseteq> visited st)"

lemma foldl_invariant:
  assumes "P st" and "\<And>st d. P st \<Longrightarrow> P (f st d)"
  shows "P (foldl f st ds)"
  using assms(1) by (induction ds arbitrary: st) (auto intro: assms(2))

lemma finish_visitedOrder:
  "finish found pm endp vo = Inr r \<Longrightarrow> visitedOrder r = vo"
  by (auto simp: finish_def split: if_splits option.splits)

lemma bfs_visit_trace_ok: "trace_ok st \<Longrightarrow> trace_ok (bfs_visit maze cur st d)"
  unfolding trace_ok_def bfs_visit_def Let_def
  by (cases "passable maze (move cur d) \<and> move cur d \<notin> visited st") auto

lemma bfs_body_trace_ok: "trace_ok st \<Longrightarrow> trace_ok (flow_state (bfs_body maze endp st))"
proof -
  assume "trace_ok st"
  then have "trace_ok (st\<lparr>queue := tl (queue st)\<rparr>)"
    by (simp add: trace_ok_def)
  then have "trace_ok (bfs_expand maze (hd (queue st)) (st\<lparr>queue := tl (queue st)\<rparr>))"
    unfolding bfs_expand_def
    by (rule foldl_invariant [where P = trace_ok]) (rule bfs_visit_trace_ok)
  with \<open>trace_ok (st\<lparr>queue := tl (queue st)\<rparr>)\<close> show ?thesis
    by (simp add: bfs_body_def Let_def)
qed

lemma bfs_loop_trace_ok: "trace_ok st \<Longrightarrow> trace_ok (snd (bfs_loop maze endp st))"
proof (induction maze endp st rule: bfs_loop.induct)
  case (1 maze endp st)
  show ?case
  proof (cases "queue st = []")
    case True
    with "1.prems" show ?thesis
      by (subst bfs_loop.simps) simp
  next
    case False
    have ok: "trace_ok (flow_state (bfs_body maze endp st))"
      using "1.prems" by (rule bfs_body_trace_ok)
    show ?thesis
    proof (cases "bfs_body maze endp st")
      case (Continue st')
      with ok have "trace_ok (snd (bfs_loop maze endp st'))"
        using "1.IH" [OF False Continue] by simp
      with False Continue show ?thesis
        by (subst bfs_loop.simps) simp
    next
      case (Return st')
      with ok False show ?thesis
        by (subst bfs_loop.simps) simp
    qed
  qed
qed

lemma dfs_visit_trace_ok: "trace_ok st \<Longrightarrow> trace_ok (dfs_visit maze cur st d)"
  unfolding trace_ok_def dfs_visit_def Let_def
  by (cases "passable maze (move cur d) \<and> move cur d \<notin> visited st") auto

lemma dfs_body_trace_ok: "trace_ok st \<Longrightarrow> trace_ok (flow_state (dfs_body maze endp st))"
proof -
  assume a: "trace_ok st"
  let ?st1 = "st\<lparr>stack := butlast (stack st)\<rparr>"
  let ?st2 = "?st1\<lparr>directions := shuffle (draw (rng ?st1)) (directions ?st1),
                    rng := rest (rng ?st1)\<rparr>"
  from a have 1: "trace_ok ?st1" and 2: "trace_ok ?st2"
    by (simp_all add: trace_ok_def)
  have "trace_ok (dfs_expand maze (last (stack st)) ?st1)"
    unfolding dfs_expand_def Let_def using 2
    by (rule foldl_invariant [where P = trace_ok]) (rule dfs_visit_trace_ok)
  with 1 show ?thesis
    by (simp add: dfs_body_def Let_def)
qed

lemma dfs_loop_trace_ok: "trace_ok st \<Longrightarrow> trace_ok (snd (dfs_loop maze endp st))"
proof (induction maze endp st rule: dfs_loop.induct)
  case (1 maze endp st)
  show ?case
  proof (cases "stack st = []")
    case True
    with "1.prems" show ?thesis
      by (subst dfs_loop.simps) simp
  next
    case False
    have ok: "trace_ok (flow_state (dfs_body maze endp st))"
      using "1.prems" by (rule dfs_body_trace_ok)
    show ?thesis
    proof (cases "dfs_body maze endp st")
      case (Continue st')
      with ok have "trace_ok (snd (dfs_loop maze endp st'))"
        using "1.IH" [OF False Continue] by simp
      with False Continue show ?thesis
        by (subst dfs_loop.simps) simp
    next
      case (Return st')
      with ok False show ?thesis
        by (subst dfs_loop.simps) simp
    qed
  qed
qed

lemma astar_body_trace_ok: "trace_ok st \<Longrightarrow> trace_ok (flow_state (astar_body maze endp st))"
  by (auto simp: trace_ok_def astar_body_def astar_expand_def Let_def)

lemma astar_loop_trace_ok: "trace_ok st \<Longrightarrow> trace_ok (snd (astar_loop maze endp st))"
proof (induction maze endp st rule: astar_loop.induct)
  case (1 maze endp st)
  show ?case
  proof (cases "openSet st = []")
    case True
    with "1.prems" show ?thesis
      by (subst astar_loop.simps) simp
  next
    case False
    have ok: "trace_ok (flow_state (astar_body maze endp st))"
      using "1.prems" by (rule astar_body_trace_ok)
    show ?thesis
    proof (cases "astar_body maze endp st")
      case (Continue st')
      with ok have "trace_ok (snd (astar_loop maze endp st'))"
        using "1.IH" [OF False Continue] by simp
      with False Continue show ?thesis
        by (subst astar_loop.simps) simp
    next
      case (Return st')
      with ok False show ?thesis
        by (subst astar_loop.simps) simp
    qed
  qed
qed

lemma greedy_body_trace_ok: "trace_ok st \<Longrightarrow> trace_ok (flow_state (greedy_body maze endp st))"
  by (auto simp: trace_ok_def greedy_body_def greedy_expand_def Let_def)

lemma greedy_loop_trace_ok: "trace_ok st \<Longrightarrow> trace_ok (snd (greedy_loop maze endp st))"
proof (induction maze endp st rule: greedy_loop.induct)
  case (1 maze endp st)
  show ?case
  proof (cases "openSet st = []")
    case True
    with "1.prems" show ?thesis
      by (subst greedy_loop.simps) simp
  next
    case False
    have ok: "trace_ok (flow_state (greedy_body maze endp st))"
      using "1.prems" by (rule greedy_body_trace_ok)
    show ?thesis
    proof (cases "greedy_body maze endp st")
      case (Continue st')
      with ok have "trace_ok (snd (greedy_loop maze endp st'))"
        using "1.IH" [OF False Continue] by simp
      with False Continue show ?thesis
        by (subst greedy_loop.simps) simp
    next
      case (Return st')
      with ok False show ?thesis
        by (subst greedy_loop.simps) simp
    qed
  qed
qed

lemma trace_ok_init:
  "trace_ok (bfs_init start)" "trace_ok (dfs_init rnd start)"
  "trace_ok (astar_init start endp)" "trace_ok (greedy_init start endp)"
  by (simp_all add: trace_ok_def bfs_init_def dfs_init_def astar_init_def greedy_init_def
      Let_def)

text \<open>
  The trace that a search loop leaves behind never holds a coordinate twice, so whatever
  BFS, DFS, A* or greedy search returns, on every input and for every outcome of the
  random choices of DFS, no coordinate appears twice in \<open>visitedOrder\<close>. The search loops
  are total functions; whether a result is returned once the end has been found depends
  on the walk along the parent pointers, which is the subject of the next subsection.
\<close>

lemma visitedOrder_distinct:
  "(findPathBFS maze start endp = Inr r1 \<longrightarrow> distinct (visitedOrder r1))
   \<and> (findPathDFS rnd maze start endp = Inr r2 \<longrightarrow> distinct (visitedOrder r2))
   \<and> (findPathAStar maze start endp = Inr r3 \<longrightarrow> distinct (visitedOrder r3))
   \<and> (findPathGreedy maze start endp = Inr r4 \<longrightarrow> distinct (visitedOrder r4))"
proof (intro conjI impI)
  assume a: "findPathBFS maze start endp = Inr r1"
  obtain found st where l: "bfs_loop maze endp (bfs_init start) = (found, st)"
    by (cases "bfs_loop maze endp (bfs_init start)")
  have "trace_ok (snd (bfs_loop maze endp (bfs_init start)))"
    by (intro bfs_loop_trace_ok trace_ok_init)
  then have d: "distinct (visitedOrder st)"
    by (simp add: l trace_ok_def)
  show "distinct (visitedOrder r1)"
  proof (cases "invalid_endpoint maze start \<or> invalid_endpoint maze endp")
    case True
    with a have "visitedOrder r1 = []"
      by (cases "maze = []") (auto simp: findPathBFS_def)
    then show ?thesis by simp
  next
    case False
    with a have "finish found (parentMap st) endp (visitedOrder st) = Inr r1"
      by (cases "maze = []") (simp_all add: findPathBFS_def l)
    with d show ?thesis by (simp add: finish_visitedOrder)
  qed
next
  assume a: "findPathDFS rnd maze start endp = Inr r2"
  obtain found st where l: "dfs_loop maze endp (dfs_init rnd start) = (found, st)"
    by (cases "dfs_loop maze endp (dfs_init rnd start)")
  have "trace_ok (snd (dfs_loop maze endp (dfs_init rnd start)))"
    by (intro dfs_loop_trace_ok trace_ok_init)
  then have d: "distinct (visitedOrder st)"
    by (simp add: l trace_ok_def)
  show "distinct (visitedOrder r2)"
  proof (cases "invalid_endpoint maze start \<or> invalid_endpoint maze endp")
    case True
    with a have "visitedOrder r2 = []"
      by (cases "maze = []") (auto simp: findPathDFS_def)
    then show ?thesis by simp
  next
    case False
    with a have "finish found (parentMap st) endp (visitedOrder st) = Inr r2"
      by (cases "maze = []") (simp_all add: findPathDFS_def l)
    with d show ?thesis by (simp add: finish_visitedOrder)
  qed
next
  assume a: "findPathAStar maze start endp = Inr r3"
  obtain found st where l: "astar_loop maze endp (astar_init start endp) = (found, st)"
    by (cases "astar_loop maze endp (astar_init start endp)")
  have "trace_ok (snd (astar_loop maze endp (astar_init start endp)))"
    by (intro astar_loop_trace_ok trace_ok_init)
  then have d: "distinct (visitedOrder st)"
    by (simp add: l trace_ok_def)
  show "distinct (visitedOrder r3)"
  proof (cases "invalid_endpoint maze start \<or> invalid_endpoint maze endp")
    case True
    with a have "visitedOrder r3 = []"
      by (cases "maze = []") (auto simp: findPathAStar_def)
    then show ?thesis by simp
  next
    case False
    with a have "finish found (parentMap st) endp (visitedOrder st) = Inr r3"
      by (cases "maze = []") (simp_all add: findPathAStar_def l)
    with d show ?thesis by (simp add: finish_visitedOrder)
  qed
next
  assume a: "findPathGreedy maze start endp = Inr r4"
  obtain found st where l: "greedy_loop maze endp (greedy_init start endp) = (found, st)"
    by (cases "greedy_loop maze endp (greedy_init start endp)")
  have "trace_ok (snd (greedy_loop maze endp (greedy_init start endp)))"
    by (intro greedy_loop_trace_ok trace_ok_init)
  then have d: "distinct (visitedOrder st)"
    by (simp add: l trace_ok_def)
  show "distinct (visitedOrder r4)"
  proof (cases "invalid_endpoint maze start \<or> invalid_endpoint maze endp")
    case True
    with a have "visitedOrder r4 = []"
      by (cases "maze = []") (auto simp: findPathGreedy_def)
    then show ?thesis by simp
  next
    case False
    with a have "finish found (parentMap st) endp (visitedOrder st) = Inr r4"
      by (cases "maze = []") (simp_all add: findPathGreedy_def l)
    with d show ?thesis by (simp add: finish_visitedOrder)
  qed
qed

lemma visitedOrder_distinct_witness:
  "findPathBFS maze1x1 (1, 0) (1, 2)
     = Inr \<lparr>visitedOrder = [(1, 0), (1, 1), (1, 2)], path = Some [(1, 0), (1, 1), (1, 2)]\<rparr>
   \<and> findPathDFS [5, 3] maze1x1 (1, 0) (1, 2)
     = Inr \<lparr>visitedOrder = [(1, 0), (1, 1), (1, 2)], path = Some [(1, 0), (1, 1), (1, 2)]\<rparr>
   \<and> findPathAStar maze1x1 (1, 0) (1, 2)
     = Inr \<lparr>visitedOrder = [(1, 0), (1, 1), (1, 2)], path = Some [(1, 0), (1, 1), (1, 2)]\<rparr>
   \<and> findPathGreedy maze1x1 (1, 0) (1, 2)
     = Inr \<lparr>visitedOrder = [(1, 0), (1, 1), (1, 2)], path = Some [(1, 0), (1, 1), (1, 2)]\<rparr>
   \<and> distinct [(1, 0), (1, 1), (1, 2 :: int) :: coord]"
proof -
  let ?r = "\<lparr>visitedOrder = [(1, 0), (1, 1), (1, 2)], path = Some [(1, 0), (1, 1), (1, 2)]\<rparr>"
  have b: "findPathBFS maze1x1 (1, 0) (1, 2) = Inr ?r"
    by code_simp
  have d: "findPathDFS [5, 3] maze1x1 (1, 0) (1, 2) = Inr ?r"
    by code_simp
  have a: "findPathAStar maze1x1 (1, 0) (1, 2) = Inr ?r"
    by code_simp
  have g: "findPathGreedy maze1x1 (1, 0) (1, 2) = Inr ?r"
    by code_simp
  from visitedOrder_distinct [of maze1x1 "(1, 0)" "(1, 2)" ?r "[5, 3]" ?r ?r ?r] b
  have "distinct (visitedOrder ?r)"
    by blast
  with b d a g show ?thesis
    by simp
qed

subsection \<open>A* can walk its parent pointers forever\<close>





subsection \<open>When a coordinate enters the visited trace\<close>

lemma bfs_visit_append:
  "\<exists>new. visitedOrder (bfs_visit maze cur st d) = visitedOrder st @ new
        \<and> queue (bfs_visit maze cur st d) = queue st @ new
        \<and> set new \<inter> visited st = {}"
  unfolding bfs_visit_def Let_def
  by (cases "passable maze (move cur d) \<and> move cur d \<notin> visited st") auto

lemma bfs_visit_visited_mono: "visited st \<subseteq> visited (bfs_visit maze cur st d)"
  unfolding bfs_visit_def Let_def
  by (cases "passable maze (move cur d) \<and> move cur d \<notin> visited st") auto

lemma bfs_fold_append:
  "\<exists>new. visitedOrder (foldl (bfs_visit maze cur) st ds) = visitedOrder st @ new
        \<and> queue (foldl (bfs_visit maze cur) st ds) = queue st @ new
        \<and> set new \<inter> visited st = {}
        \<and> visited st \<subseteq> visited (foldl (bfs_visit maze cur) st ds)"
proof (induction ds arbitrary: st)
  case Nil
  show ?case by simp
next
  case (Cons d ds)
  let ?st1 = "bfs_visit maze cur st d"
  obtain n1 where 1: "visitedOrder ?st1 = visitedOrder st @ n1" "queue ?st1 = queue st @ n1"
      "set n1 \<inter> visited st = {}"
    using bfs_visit_append [of maze cur st d] by blast
  obtain n2 where 2: "visitedOrder (foldl (bfs_visit maze cur) ?st1 ds) = visitedOrder ?st1 @ n2"
      "queue (foldl (bfs_visit maze cur) ?st1 ds) = queue ?st1 @ n2"
      "set n2 \<inter> visited ?st1 = {}"
      "visited ?st1 \<subseteq> visited (foldl (bfs_visit maze cur) ?st1 ds)"
    using Cons.IH [of ?st1] by blast
  have "set n2 \<inter> visited st = {}"
    using 2(3) bfs_visit_visited_mono [of st maze cur d] by blast
  with 1 2 bfs_visit_visited_mono [of st maze cur d] show ?case
    by (intro exI [of _ "n1 @ n2"]) auto
qed

lemma dfs_visit_append:
  "\<exists>new. visitedOrder (dfs_visit maze cur st d) = visitedOrder st @ new
        \<and> stack (dfs_visit maze cur st d) = stack st @ new
        \<and> set new \<inter> visited st = {}"
  unfolding dfs_visit_def Let_def
  by (cases "passable maze (move cur d) \<and> move cur d \<notin> visited st") auto

lemma dfs_visit_visited_mono: "visited st \<subseteq> visited (dfs_visit maze cur st d)"
  unfolding dfs_visit_def Let_def
  by (cases "passable maze (move cur d) \<and> move cur d \<notin> visited st") auto

lemma dfs_fold_append:
  "\<exists>new. visitedOrder (foldl (dfs_visit maze cur) st ds) = visitedOrder st @ new
        \<and> stack (foldl (dfs_visit maze cur) st ds) = stack st @ new
        \<and> set new \<inter> visited st = {}
        \<and> visited st \<subseteq> visited (foldl (dfs_visit maze cur) st ds)"
proof (induction ds arbitrary: st)
  case Nil
  show ?case by simp
next
  case (Cons d ds)
  let ?st1 = "dfs_visit maze cur st d"
  obtain n1 where 1: "visitedOrder ?st1 = visitedOrder st @ n1" "stack ?st1 = stack st @ n1"
      "set n1 \<inter> visited st = {}"
    using dfs_visit_append [of maze cur st d] by blast
  obtain n2 where 2: "visitedOrder (foldl (dfs_visit maze cur) ?st1 ds) = visitedOrder ?st1 @ n2"
      "stack (foldl (dfs_visit maze cur) ?st1 ds) = stack ?st1 @ n2"
      "set n2 \<inter> visited ?st1 = {}"
      "visited ?st1 \<subseteq> visited (foldl (dfs_visit maze cur) ?st1 ds)"
    using Cons.IH [of ?st1] by blast
  have "set n2 \<inter> visited st = {}"
    using 2(3) dfs_visit_visited_mono [of st maze cur d] by blast
  with 1 2 dfs_visit_visited_mono [of st maze cur d] show ?case
    by (intro exI [of _ "n1 @ n2"]) auto
qed


lemma bfs_body_append:
  "\<exists>new. visitedOrder (flow_state (bfs_body maze endp st)) = visitedOrder st @ new
        \<and> queue (flow_state (bfs_body maze endp st)) = tl (queue st) @ new
        \<and> set new \<inter> visited st = {}"
proof (cases "hd (queue st) = endp")
  case True
  then show ?thesis by (simp add: bfs_body_def Let_def)
next
  case False
  then show ?thesis
    using bfs_fold_append [of maze "hd (queue st)" "st\<lparr>queue := tl (queue st)\<rparr>" directions4]
    by (simp add: bfs_body_def bfs_expand_def Let_def) blast
qed

lemma dfs_body_append:
  "\<exists>new. visitedOrder (flow_state (dfs_body maze endp st)) = visitedOrder st @ new
        \<and> stack (flow_state (dfs_body maze endp st)) = butlast (stack st) @ new
        \<and> set new \<inter> visited st = {}"
proof (cases "last (stack st) = endp")
  case True
  then show ?thesis by (simp add: dfs_body_def Let_def)
next
  case False
  let ?st2 = "st\<lparr>stack := butlast (stack st),
                 directions := shuffle (draw (rng st)) (directions st), rng := rest (rng st)\<rparr>"
  from False show ?thesis
    using dfs_fold_append [of maze "last (stack st)" ?st2 "shuffle (draw (rng st)) (directions st)"]
    by (simp add: dfs_body_def dfs_expand_def Let_def) blast
qed

lemma astar_body_visitedOrder:
  "visitedOrder (flow_state (astar_body maze endp st))
     = (if entry_coord (hd (astar_sorted st)) \<in> visited st then visitedOrder st
        else visitedOrder st @ [entry_coord (hd (astar_sorted st))])"
  by (simp add: astar_body_def astar_expand_def Let_def)

lemma greedy_body_visitedOrder:
  "visitedOrder (flow_state (greedy_body maze endp st))
     = (if snd (hd (greedy_sorted st)) \<in> visited st then visitedOrder st
        else visitedOrder st @ [snd (hd (greedy_sorted st))])"
  by (simp add: greedy_body_def greedy_expand_def Let_def)

text \<open>
  C5 as stated fails for BFS (and DFS): a neighbour is appended to \<open>visitedOrder\<close> when it
  is enqueued. On the grid of the 1 by 1 maze, from \<open>(1,1)\<close> to \<open>(1,0)\<close>, the first pass
  appends both neighbours while they wait in the queue, and the search returns at the
  next dequeue: \<open>(1,2)\<close> is in the returned trace and was never the current cell.
\<close>

theorem bfs_records_on_enqueue:
  "visitedOrder (flow_state (bfs_body maze1x1 (1, 0) (bfs_init (1, 1))))
     = [(1, 1), (1, 0), (1, 2)]
   \<and> queue (flow_state (bfs_body maze1x1 (1, 0) (bfs_init (1, 1)))) = [(1, 0), (1, 2)]
   \<and> findPathBFS maze1x1 (1, 1) (1, 0)
     = Inr \<lparr>visitedOrder = [(1, 1), (1, 0), (1, 2)], path = Some [(1, 1), (1, 0)]\<rparr>"
  by code_simp

text \<open>
  C5, amended. In \<open>findPathAStar\<close> and \<open>findPathGreedy\<close> a pass of the loop appends
  exactly the popped cell, and only if it was not yet visited; pushes into the open set
  append nothing, and the trace starts empty. In \<open>findPathBFS\<close> and \<open>findPathDFS\<close> the
  trace starts as \<open>[start]\<close>, and a pass of the loop appends exactly the cells it enqueues
  (pushes), all of them new; the dequeued (popped) cell is not appended.
\<close>

theorem visitedOrder_recording:
  "(\<exists>new. visitedOrder (flow_state (bfs_body maze endp st1)) = visitedOrder st1 @ new
        \<and> queue (flow_state (bfs_body maze endp st1)) = tl (queue st1) @ new
        \<and> set new \<inter> visited st1 = {})
   \<and> (\<exists>new. visitedOrder (flow_state (dfs_body maze endp st2)) = visitedOrder st2 @ new
        \<and> stack (flow_state (dfs_body maze endp st2)) = butlast (stack st2) @ new
        \<and> set new \<inter> visited st2 = {})
   \<and> visitedOrder (flow_state (astar_body maze endp st3))
       = (if entry_coord (hd (astar_sorted st3)) \<in> visited st3 then visitedOrder st3
          else visitedOrder st3 @ [entry_coord (hd (astar_sorted st3))])
   \<and> visitedOrder (flow_state (greedy_body maze endp st4))
       = (if snd (hd (greedy_sorted st4)) \<in> visited st4 then visitedOrder st4
          else visitedOrder st4 @ [snd (hd (greedy_sorted st4))])
   \<and> visitedOrder (bfs_init start) = [start]
   \<and> visitedOrder (dfs_init rnd start) = [start]
   \<and> visitedOrder (astar_init start endp) = []
   \<and> visitedOrder (greedy_init start endp) = []"
  using bfs_body_append [of maze endp st1] dfs_body_append [of maze endp st2]
    astar_body_visitedOrder [of maze endp st3] greedy_body_visitedOrder [of maze endp st4]
  by (simp add: bfs_init_def dfs_init_def astar_init_def greedy_init_def Let_def)

subsection \<open>Parent pointers of the greedy search\<close>

text \<open>The grid of the 2 by 2 maze as recursive division leaves it: one open room.\<close>

definition mazeRD2x2 :: grid where
  "mazeRD2x2 =
     [[1, 1, 1, 1, 1],
      [0, 0, 0, 0, 1],
      [1, 0, 0, 0, 1],
      [1, 0, 0, 0, 0],
      [1, 1, 1, 1, 1]]"

lemma greedy_visit_parent:
  "k \<in> visited st \<Longrightarrow> parentMap (greedy_visit maze endp cur st d) k = parentMap st k"
  unfolding greedy_visit_def Let_def
  by (cases "passable maze (move cur d) \<and> move cur d \<notin> visited st") auto

lemma greedy_fold_parent:
  "k \<in> visited st \<Longrightarrow> parentMap (foldl (greedy_visit maze endp cur) st ds) k = parentMap st k"
proof (induction ds arbitrary: st)
  case Nil
  show ?case by simp
next
  case (Cons d ds)
  have "k \<in> visited (greedy_visit maze endp cur st d)"
    using Cons.prems by simp
  from Cons.IH [OF this] greedy_visit_parent [OF Cons.prems] show ?case
    by simp
qed

lemma greedy_body_parent:
  assumes "k \<in> visited st"
  shows "parentMap (flow_state (greedy_body maze endp st)) k = parentMap st k
       \<and> k \<in> visited (flow_state (greedy_body maze endp st))"
proof -
  let ?cur = "snd (hd (greedy_sorted st))"
  let ?st2 = "st\<lparr>openSet := tl (greedy_sorted st), visited := insert ?cur (visited st),
                 visitedOrder := visitedOrder st @ [?cur]\<rparr>"
  have "k \<in> visited ?st2" using assms by simp
  then have "parentMap (greedy_expand maze endp ?cur ?st2) k = parentMap ?st2 k"
    unfolding greedy_expand_def by (rule greedy_fold_parent)
  with assms show ?thesis
    by (simp add: greedy_body_def greedy_expand_def Let_def)
qed

text \<open>
  The guard of the neighbour loop tests the closed set only
  (\<open>!visited.has(neighborKey)\<close>), and a cell enters \<open>visited\<close> when it is popped. So
  every discovery of a neighbour that is still open writes the current cell as its
  parent, whatever parent was recorded before.
\<close>

lemma greedy_visit_sets_parent:
  "passable maze (move cur d) \<Longrightarrow> move cur d \<notin> visited st
   \<Longrightarrow> parentMap (greedy_visit maze endp cur st d) (move cur d) = Some (Some cur)"
  by (simp add: greedy_visit_def Let_def)

text \<open>
  C7. The claim, and the comment on the line that records the parent (greedy does not
  ``update if a better path is found'' to the neighbour), say that the parent recorded
  first is kept. The code overwrites it. In the open room of \<open>mazeRD2x2\<close>, from the
  entrance \<open>(1,0)\<close> to \<open>(2,3)\<close>: after the second pass the parent of \<open>(1,2)\<close> is
  \<open>(1,1)\<close>, its first discoverer; when the search returns it is \<open>(2,2)\<close>.
\<close>

theorem greedy_parent_overwritten:
  "parentMap (flow_state (greedy_body mazeRD2x2 (2, 3)
       (flow_state (greedy_body mazeRD2x2 (2, 3) (greedy_init (1, 0) (2, 3)))))) (1, 2)
     = Some (Some (1, 1))
   \<and> parentMap (snd (greedy_loop mazeRD2x2 (2, 3) (greedy_init (1, 0) (2, 3)))) (1, 2)
     = Some (Some (2, 2))"
  by code_simp

text \<open>
  What does hold: once a cell has been settled (popped and added to \<open>visited\<close>), its
  parent pointer is never overwritten. From any state of the search to the state in which
  the loop ends, the parent of every visited cell is the same.
\<close>

lemma greedy_parent_kept:
  "k \<in> visited st \<Longrightarrow> parentMap (snd (greedy_loop maze endp st)) k = parentMap st k"
proof (induction maze endp st rule: greedy_loop.induct)
  case (1 maze endp st)
  show ?case
  proof (cases "openSet st = []")
    case True
    then show ?thesis
      by (subst greedy_loop.simps) simp
  next
    case False
    note body = greedy_body_parent [OF "1.prems", of maze endp]
    show ?thesis
    proof (cases "greedy_body maze endp st")
      case (Continue st')
      with body have "k \<in> visited st'" "parentMap st' k = parentMap st k"
        by simp_all
      with "1.IH" [OF False Continue] have "parentMap (snd (greedy_loop maze endp st')) k = parentMap st k"
        by simp
      with False Continue show ?thesis
        by (subst greedy_loop.simps) simp
    next
      case (Return st')
      with body False show ?thesis
        by (subst greedy_loop.simps) simp
    qed
  qed
qed

lemma greedy_parent_kept_witness:
  "(1, 1) \<in> visited (flow_state (greedy_body mazeRD2x2 (2, 3)
       (flow_state (greedy_body mazeRD2x2 (2, 3) (greedy_init (1, 0) (2, 3))))))
   \<and> parentMap (snd (greedy_loop mazeRD2x2 (2, 3)
         (flow_state (greedy_body mazeRD2x2 (2, 3)
           (flow_state (greedy_body mazeRD2x2 (2, 3) (greedy_init (1, 0) (2, 3)))))))) (1, 1)
     = Some (Some (1, 0))"
proof -
  let ?st = "flow_state (greedy_body mazeRD2x2 (2, 3)
       (flow_state (greedy_body mazeRD2x2 (2, 3) (greedy_init (1, 0) (2, 3)))))"
  have v: "(1, 1) \<in> visited ?st"
    by code_simp
  have p: "parentMap ?st (1, 1) = Some (Some (1, 0))"
    by code_simp
  from greedy_parent_kept [OF v, of mazeRD2x2 "(2, 3)"] p v show ?thesis
    by simp
qed

section \<open>Maze generators\<close>

text \<open>
  A generator builds the \<open>gridHeight\<close> by \<open>gridWidth\<close> array, writes into it and returns
  it. A write \<open>maze[r][c] = v\<close> is modelled inside the array only: on a missing row the
  source throws, and past the end of a row it would leave an array that is no longer a
  grid; both are \<open>None\<close>, as is a loop that never ends. So a generator yields
  \<open>Some\<close> grid exactly when it returns one and every write stayed inside the array.
\<close>

definition gridHeight :: "nat \<Rightarrow> nat" where
  "gridHeight height = height * 2 + 1"

definition gridWidth :: "nat \<Rightarrow> nat" where
  "gridWidth width = width * 2 + 1"

text \<open>\<open>Array(gridHeight).fill(null).map(() => Array(gridWidth).fill(v))\<close>\<close>

definition newGrid :: "nat \<Rightarrow> nat \<Rightarrow> int \<Rightarrow> grid" where
  "newGrid width height v = replicate (gridHeight height) (replicate (gridWidth width) v)"

definition setCell :: "grid \<Rightarrow> int \<Rightarrow> int \<Rightarrow> int \<Rightarrow> grid option" where
  "setCell g r c v =
     (if 0 \<le> r \<and> r < int (length g) \<and> 0 \<le> c \<and> c < int (length (g ! nat r))
      then Some (g[nat r := (g ! nat r)[nat c := v]])
      else None)"

text \<open>A \<open>for\<close> loop over a list whose body may fail.\<close>

fun foldM :: "('s \<Rightarrow> 'a \<Rightarrow> 's option) \<Rightarrow> 's \<Rightarrow> 'a list \<Rightarrow> 's option" where
  "foldM f s [] = Some s"
| "foldM f s (x # xs) = (case f s x of None \<Rightarrow> None | Some s' \<Rightarrow> foldM f s' xs)"

text \<open>
  The last two writes of every generator: \<open>maze[1][0] = 0\<close> (entrance) and
  \<open>maze[gridHeight - 2][gridWidth - 1] = 0\<close> (exit).
\<close>

definition openings :: "nat \<Rightarrow> nat \<Rightarrow> grid \<Rightarrow> grid option" where
  "openings width height g =
     (case setCell g 1 0 0 of
        None \<Rightarrow> None
      | Some g1 \<Rightarrow> setCell g1 (int (gridHeight height) - 2) (int (gridWidth width) - 1) 0)"

text \<open>The test \<open>isCell\<close> (\<open>isGridCell\<close>) on grid coordinates, as four generators define it.\<close>

definition isCell :: "nat \<Rightarrow> nat \<Rightarrow> int \<Rightarrow> int \<Rightarrow> bool" where
  "isCell width height r c =
     (r > 0 \<and> r < int (gridHeight height) - 1 \<and> c > 0 \<and> c < int (gridWidth width) - 1
      \<and> r mod 2 = 1 \<and> c mod 2 = 1)"

text \<open>Steps between adjacent cells, skipping the wall between them.\<close>

definition directions2 :: "coord list" where
  "directions2 = [(-2, 0), (2, 0), (0, -2), (0, 2)]"

subsection \<open>Recursive division (recursiveDivision.ts)\<close>

definition addOuterWalls :: "nat \<Rightarrow> nat \<Rightarrow> grid \<Rightarrow> grid option" where
  "addOuterWalls width height g =
     (case foldM (\<lambda>m r. case setCell m r 0 1 of
                            None \<Rightarrow> None
                          | Some m1 \<Rightarrow> setCell m1 r (int (gridWidth width) - 1) 1)
             g (map int [0..<gridHeight height]) of
        None \<Rightarrow> None
      | Some g1 \<Rightarrow>
          foldM (\<lambda>m c. case setCell m 0 c 1 of
                          None \<Rightarrow> None
                        | Some m1 \<Rightarrow> setCell m1 (int (gridHeight height) - 1) c 1)
            g1 (map int [0..<gridWidth width]))"

text \<open>
  The choice \<open>(r2 - r1 > c2 - c1) || ((r2 - r1 === c2 - c1) && Math.random() < 0.5)\<close>
  draws only when the two extents are equal.
\<close>

definition chooseHorizontal :: "rand \<Rightarrow> int \<Rightarrow> int \<Rightarrow> int \<Rightarrow> int \<Rightarrow> bool \<times> rand" where
  "chooseHorizontal rnd r1 c1 r2 c2 =
     (if r2 - r1 > c2 - c1 then (True, rnd)
      else if r2 - r1 = c2 - c1 then (randomBool rnd, rest rnd)
      else (False, rnd))"

text \<open>
  \<open>divide\<close> is only called with odd bounds, so the differences halved by \<open>/ 2\<close> are
  even and \<open>div\<close> is exact.
\<close>

partial_function (option) divide ::
  "grid \<times> rand \<Rightarrow> int \<Rightarrow> int \<Rightarrow> int \<Rightarrow> int \<Rightarrow> (grid \<times> rand) option" where
  "divide st r1 c1 r2 c2 =
     (if r2 - r1 < 4 \<or> c2 - c1 < 4 then Some st
      else (case chooseHorizontal (snd st) r1 c1 r2 c2 of
              (divideHorizontally, rnd1) \<Rightarrow>
                if divideHorizontally
                then (let wallRowOptions = (r2 - r1) div 2;
                          wallRow = r1 + 1 + 2 * int (randomIndex rnd1 (nat wallRowOptions));
                          passageColOptions = (c2 - c1) div 2 + 1;
                          passageCol = c1 + 2 * int (randomIndex (rest rnd1) (nat passageColOptions))
                      in case foldM (\<lambda>m c. if c \<noteq> passageCol then setCell m wallRow c 1
                                            else Some m) (fst st) [c1..c2] of
                           None \<Rightarrow> None
                         | Some m \<Rightarrow>
                             Option.bind (divide (m, rest (rest rnd1)) r1 c1 (wallRow - 1) c2)
                               (\<lambda>st'. divide st' (wallRow + 1) c1 r2 c2))
                else (let wallColOptions = (c2 - c1) div 2;
                          wallCol = c1 + 1 + 2 * int (randomIndex rnd1 (nat wallColOptions));
                          passageRowOptions = (r2 - r1) div 2 + 1;
                          passageRow = r1 + 2 * int (randomIndex (rest rnd1) (nat passageRowOptions))
                      in case foldM (\<lambda>m r. if r \<noteq> passageRow then setCell m r wallCol 1
                                            else Some m) (fst st) [r1..r2] of
                           None \<Rightarrow> None
                         | Some m \<Rightarrow>
                             Option.bind (divide (m, rest (rest rnd1)) r1 c1 r2 (wallCol - 1))
                               (\<lambda>st'. divide st' r1 (wallCol + 1) r2 c2))))"

declare divide.simps [code]

definition generateRecursiveDivisionMaze :: "rand \<Rightarrow> nat \<Rightarrow> nat \<Rightarrow> grid option" where
  "generateRecursiveDivisionMaze rnd width height =
     (case addOuterWalls width height (newGrid width height 0) of
        None \<Rightarrow> None
      | Some g \<Rightarrow>
          (case divide (g, rnd) 1 1 (int (gridHeight height) - 2) (int (gridWidth width) - 2) of
             None \<Rightarrow> None
           | Some st \<Rightarrow> openings width height (fst st)))"

subsection \<open>Recursive backtracker (recursiveBacktracker.ts)\<close>

text \<open>
  The state is the grid, the one \<open>directions\<close> array that every call of \<open>carvePath\<close>
  sorts in place, and the random source.
\<close>

type_synonym carve_state = "grid \<times> coord list \<times> rand"

text \<open>
  The first two statements of \<open>carvePath(r, c)\<close>: mark the cell and shuffle
  \<open>directions\<close>.
\<close>

definition enterCell :: "carve_state \<Rightarrow> int \<Rightarrow> int \<Rightarrow> carve_state option" where
  "enterCell st r c =
     (case st of (g, dirs, rnd) \<Rightarrow>
        (case setCell g r c 0 of
           None \<Rightarrow> None
         | Some g1 \<Rightarrow> Some (g1, shuffle (draw rnd) dirs, rest rnd)))"

text \<open>
  \<open>carveFrom st r c i\<close> is the \<open>for (const [dr, dc] of shuffledDirections)\<close> loop of the
  call for cell \<open>(r, c)\<close>, from position \<open>i\<close> of the array on. \<open>shuffledDirections\<close> is
  the array \<open>directions\<close> itself (\<open>sort\<close> returns its receiver), and the iterator reads
  element \<open>i\<close> of the array as it is when the iteration gets there, after whatever the
  recursive calls have done to it.
\<close>

partial_function (option) carveFrom ::
  "nat \<Rightarrow> nat \<Rightarrow> carve_state \<Rightarrow> int \<Rightarrow> int \<Rightarrow> nat \<Rightarrow> carve_state option" where
  "carveFrom width height st r c i =
     (case st of (g, dirs, rnd) \<Rightarrow>
        if i \<ge> length dirs then Some st
        else (let dr = fst (dirs ! i); dc = snd (dirs ! i);
                  nr = r + dr; nc = c + dc
              in if isCell width height nr nc \<and> cell g nr nc = Some 1
                 then (case setCell g (r + dr div 2) (c + dc div 2) 0 of
                         None \<Rightarrow> None
                       | Some g1 \<Rightarrow>
                           (case enterCell (g1, dirs, rnd) nr nc of
                              None \<Rightarrow> None
                            | Some st1 \<Rightarrow>
                                Option.bind (carveFrom width height st1 nr nc 0)
                                  (\<lambda>st2. carveFrom width height st2 r c (i + 1))))
                 else carveFrom width height st r c (i + 1)))"

declare carveFrom.simps [code]

definition carvePath :: "nat \<Rightarrow> nat \<Rightarrow> carve_state \<Rightarrow> int \<Rightarrow> int \<Rightarrow> carve_state option" where
  "carvePath width height st r c =
     (case enterCell st r c of
        None \<Rightarrow> None
      | Some st1 \<Rightarrow> carveFrom width height st1 r c 0)"

definition generateRecursiveBacktrackerMaze :: "rand \<Rightarrow> nat \<Rightarrow> nat \<Rightarrow> grid option" where
  "generateRecursiveBacktrackerMaze rnd width height =
     (let startRow = int (randomIndex rnd height) * 2 + 1;
          startCol = int (randomIndex (rest rnd) width) * 2 + 1
      in case carvePath width height (newGrid width height 1, directions2, rest (rest rnd))
                startRow startCol of
           None \<Rightarrow> None
         | Some st \<Rightarrow> openings width height (fst st))"

subsection \<open>Binary tree (binaryTree.ts)\<close>

text \<open>The values of \<open>for (let r = 1; r < 2 * n + 1 - 1; r += 2)\<close>.\<close>

definition oddIndices :: "nat \<Rightarrow> int list" where
  "oddIndices n = map (\<lambda>i. 2 * int i + 1) [0..<n]"

definition cellPositions :: "nat \<Rightarrow> nat \<Rightarrow> coord list" where
  "cellPositions width height =
     concat (map (\<lambda>r. map (\<lambda>c. (r, c)) (oddIndices width)) (oddIndices height))"

text \<open>The body of the inner loop, for the cell at grid position \<open>(r, c)\<close>.\<close>

definition binaryTreeCell :: "grid \<times> rand \<Rightarrow> coord \<Rightarrow> (grid \<times> rand) option" where
  "binaryTreeCell st rc =
     (case st of (g, rnd) \<Rightarrow> case rc of (r, c) \<Rightarrow>
        (case setCell g r c 0 of
           None \<Rightarrow> None
         | Some g1 \<Rightarrow>
             (let canMoveUp = r > 1; canMoveLeft = c > 1
              in if canMoveUp \<and> canMoveLeft
                 then (if randomBool rnd
                       then map_option (\<lambda>m. (m, rest rnd)) (setCell g1 (r - 1) c 0)
                       else map_option (\<lambda>m. (m, rest rnd)) (setCell g1 r (c - 1) 0))
                 else if canMoveUp then map_option (\<lambda>m. (m, rnd)) (setCell g1 (r - 1) c 0)
                 else if canMoveLeft then map_option (\<lambda>m. (m, rnd)) (setCell g1 r (c - 1) 0)
                 else Some (g1, rnd))))"

definition generateBinaryTreeMaze :: "rand \<Rightarrow> nat \<Rightarrow> nat \<Rightarrow> grid option" where
  "generateBinaryTreeMaze rnd width height =
     (case foldM binaryTreeCell (newGrid width height 1, rnd) (cellPositions width height) of
        None \<Rightarrow> None
      | Some st \<Rightarrow> openings width height (fst st))"

subsection \<open>While loops that may fail or run forever\<close>

text \<open>
  \<open>while (b) { body }\<close> over a state, where the body may fail (\<open>None\<close>) and the loop may
  never end (\<open>None\<close> as well).
\<close>

partial_function (option) whileM :: "('s \<Rightarrow> bool) \<Rightarrow> ('s \<Rightarrow> 's option) \<Rightarrow> 's \<Rightarrow> 's option" where
  "whileM b body s = (if b s then Option.bind (body s) (whileM b body) else Some s)"

declare whileM.simps [code]

subsection \<open>Randomized Kruskal (kruskals.ts)\<close>

text \<open>
  The union-find structure: \<open>parent\<close> and \<open>rank\<close>, arrays indexed by \<open>r * width + c\<close>.
  A read outside \<open>parent\<close> does not occur for indices of cells; it is \<open>None\<close> here.
\<close>

partial_function (option) findSetByIndex :: "nat list \<Rightarrow> nat \<Rightarrow> (nat \<times> nat list) option" where
  "findSetByIndex parent i =
     (if i \<ge> length parent then None
      else if parent ! i = i then Some (i, parent)
      else Option.bind (findSetByIndex parent (parent ! i))
             (\<lambda>(root, parent'). Some (root, parent'[i := root])))"

declare findSetByIndex.simps [code]

definition unionSetsByIndex ::
  "nat list \<times> nat list \<Rightarrow> nat \<Rightarrow> nat \<Rightarrow> (nat list \<times> nat list) option" where
  "unionSetsByIndex uf i j =
     (case uf of (parent, rank) \<Rightarrow>
        (case findSetByIndex parent i of
           None \<Rightarrow> None
         | Some (rootI, parent1) \<Rightarrow>
             (case findSetByIndex parent1 j of
                None \<Rightarrow> None
              | Some (rootJ, parent2) \<Rightarrow>
                  if rootI \<noteq> rootJ
                  then (if rank ! rootI < rank ! rootJ
                        then Some (parent2[rootI := rootJ], rank)
                        else if rank ! rootJ < rank ! rootI
                        then Some (parent2[rootJ := rootI], rank)
                        else Some (parent2[rootJ := rootI], rank[rootI := rank ! rootI + 1]))
                  else Some (parent2, rank))))"

text \<open>
  A wall \<open>{ r, c, cells: [[r1, c1], [r2, c2]] }\<close>: its grid position and the cell
  coordinates of the two cells it separates.
\<close>

type_synonym wall = "int \<times> int \<times> (nat \<times> nat) \<times> (nat \<times> nat)"

definition horizontalWalls :: "nat \<Rightarrow> nat \<Rightarrow> wall list" where
  "horizontalWalls width height =
     concat (map (\<lambda>r. map (\<lambda>c. (int r * 2 + 1, int c * 2 + 2, (r, c), (r, c + 1)))
                          [0..<width - 1]) [0..<height])"

definition verticalWalls :: "nat \<Rightarrow> nat \<Rightarrow> wall list" where
  "verticalWalls width height =
     concat (map (\<lambda>r. map (\<lambda>c. (int r * 2 + 2, int c * 2 + 1, (r, c), (r + 1, c)))
                          [0..<width]) [0..<height - 1])"

text \<open>The first double loop: reset the union-find entry and carve the cell.\<close>

definition kruskalInitCell :: "grid \<Rightarrow> coord \<Rightarrow> grid option" where
  "kruskalInitCell g rc = setCell g (fst rc) (snd rc) 0"

type_synonym kruskal_state = "grid \<times> nat list \<times> nat list"

text \<open>The body of \<open>for (const wall of walls)\<close>.\<close>

definition kruskalWall :: "nat \<Rightarrow> kruskal_state \<Rightarrow> wall \<Rightarrow> kruskal_state option" where
  "kruskalWall width st w =
     (case st of (g, parent, rank) \<Rightarrow>
      case w of (wr, wc, (r1, c1), (r2, c2)) \<Rightarrow>
        (let index1 = r1 * width + c1; index2 = r2 * width + c2
         in case findSetByIndex parent index1 of
              None \<Rightarrow> None
            | Some (root1, parent1) \<Rightarrow>
                (case findSetByIndex parent1 index2 of
                   None \<Rightarrow> None
                 | Some (root2, parent2) \<Rightarrow>
                     if root1 \<noteq> root2
                     then (case setCell g wr wc 0 of
                             None \<Rightarrow> None
                           | Some g1 \<Rightarrow>
                               (case unionSetsByIndex (parent2, rank) index1 index2 of
                                  None \<Rightarrow> None
                                | Some (parent3, rank3) \<Rightarrow> Some (g1, parent3, rank3)))
                     else Some (g, parent2, rank))))"

definition generateKruskalsMaze :: "rand \<Rightarrow> nat \<Rightarrow> nat \<Rightarrow> grid option" where
  "generateKruskalsMaze rnd width height =
     (case foldM kruskalInitCell (newGrid width height 1) (cellPositions width height) of
        None \<Rightarrow> None
      | Some g \<Rightarrow>
          (let walls = shuffle (draw rnd) (horizontalWalls width height @ verticalWalls width height)
           in case foldM (kruskalWall width)
                     (g, [0..<height * width], replicate (height * width) 0) walls of
                None \<Rightarrow> None
              | Some st \<Rightarrow> openings width height (fst st)))"

subsection \<open>Randomized Prim (prims.ts)\<close>

text \<open>The guard on a candidate wall position: strictly inside the outer ring.\<close>

definition insideRing :: "nat \<Rightarrow> nat \<Rightarrow> int \<Rightarrow> int \<Rightarrow> bool" where
  "insideRing width height r c =
     (r > 0 \<and> r < int (gridHeight height) - 1 \<and> c > 0 \<and> c < int (gridWidth width) - 1)"

text \<open>
  The loop that pushes the walls around a freshly carved cell. The loop after the start
  cell has no duplicate test; the two loops inside the \<open>while\<close> have one.
\<close>

definition addWalls ::
  "nat \<Rightarrow> nat \<Rightarrow> bool \<Rightarrow> grid \<Rightarrow> coord \<Rightarrow> coord list \<Rightarrow> coord list" where
  "addWalls width height dedup g rc walls =
     foldl (\<lambda>ws d.
        (let w = move rc d
         in if insideRing width height (fst w) (snd w) \<and> cell g (fst w) (snd w) = Some 1
               \<and> (dedup \<longrightarrow> w \<notin> set ws)
            then ws @ [w] else ws)) walls directions4"

type_synonym prim_state = "grid \<times> coord list \<times> rand"

text \<open>The \<open>while (walls.length > 0)\<close> body.\<close>

definition primBody :: "nat \<Rightarrow> nat \<Rightarrow> prim_state \<Rightarrow> prim_state option" where
  "primBody width height st =
     (case st of (g, walls, rnd) \<Rightarrow>
        (let wallIndex = randomIndex rnd (length walls);
             w = walls ! wallIndex;
             walls1 = take wallIndex walls @ drop (Suc wallIndex) walls;
             rnd1 = rest rnd;
             found = filter (\<lambda>p. isCell width height (fst p) (snd p)) (map (move w) directions4)
         in case found of
              cell1 # cell2 # _ \<Rightarrow>
                if cell g (fst cell1) (snd cell1) = Some 0 \<and> cell g (fst cell2) (snd cell2) = Some 1
                then (case setCell g (fst w) (snd w) 0 of
                        None \<Rightarrow> None
                      | Some g1 \<Rightarrow>
                          (case setCell g1 (fst cell2) (snd cell2) 0 of
                             None \<Rightarrow> None
                           | Some g2 \<Rightarrow>
                               Some (g2, addWalls width height True g2 cell2 walls1, rnd1)))
                else if cell g (fst cell1) (snd cell1) = Some 1
                        \<and> cell g (fst cell2) (snd cell2) = Some 0
                then (case setCell g (fst w) (snd w) 0 of
                        None \<Rightarrow> None
                      | Some g1 \<Rightarrow>
                          (case setCell g1 (fst cell1) (snd cell1) 0 of
                             None \<Rightarrow> None
                           | Some g2 \<Rightarrow>
                               Some (g2, addWalls width height True g2 cell1 walls1, rnd1)))
                else Some (g, walls1, rnd1)
            | _ \<Rightarrow> Some (g, walls1, rnd1)))"

definition generatePrimsMaze :: "rand \<Rightarrow> nat \<Rightarrow> nat \<Rightarrow> grid option" where
  "generatePrimsMaze rnd width height =
     (let startRow = int (randomIndex rnd height) * 2 + 1;
          startCol = int (randomIndex (rest rnd) width) * 2 + 1
      in case setCell (newGrid width height 1) startRow startCol 0 of
           None \<Rightarrow> None
         | Some g \<Rightarrow>
             (case whileM (\<lambda>(g, walls, rnd). length walls > 0) (primBody width height)
                     (g, addWalls width height False g (startRow, startCol) [], rest (rest rnd)) of
                None \<Rightarrow> None
              | Some st \<Rightarrow> openings width height (fst st)))"

subsection \<open>Aldous-Broder (aldousBroder.ts)\<close>

text \<open>
  The grid, the set \<open>visitedCells\<close> (cell coordinates), the current grid position,
  \<open>cellsVisitedCount\<close> and the random source.
\<close>

type_synonym ab_state = "grid \<times> coord set \<times> coord \<times> nat \<times> rand"

definition cellToGrid :: "coord \<Rightarrow> coord" where
  "cellToGrid rc = (fst rc * 2 + 1, snd rc * 2 + 1)"

text \<open>Only applied to positions that passed \<open>isGridCell\<close>, where both halves are exact.\<close>

definition gridToCell :: "coord \<Rightarrow> coord" where
  "gridToCell rc = ((fst rc - 1) div 2, (snd rc - 1) div 2)"

text \<open>
  The wall between two adjacent cells, \<open>((r + prevR) / 2, (c + prevC) / 2)\<close>; the sums
  are even for two cells.
\<close>

definition wallBetween :: "coord \<Rightarrow> coord \<Rightarrow> coord" where
  "wallBetween a b = ((fst a + fst b) div 2, (snd a + snd b) div 2)"

definition aldousBroderBody :: "nat \<Rightarrow> nat \<Rightarrow> ab_state \<Rightarrow> ab_state option" where
  "aldousBroderBody width height st =
     (case st of (g, visitedCells, cur, cellsVisitedCount, rnd) \<Rightarrow>
        (let d = directions2 ! randomIndex rnd (length directions2);
             nxt = move cur d;
             rnd1 = rest rnd
         in if isCell width height (fst nxt) (snd nxt)
            then (let nextCell = gridToCell nxt
                  in if nextCell \<notin> visitedCells
                     then (let w = wallBetween cur nxt
                           in case setCell g (fst w) (snd w) 0 of
                                None \<Rightarrow> None
                              | Some g1 \<Rightarrow>
                                  (case setCell g1 (fst nxt) (snd nxt) 0 of
                                     None \<Rightarrow> None
                                   | Some g2 \<Rightarrow>
                                       Some (g2, insert nextCell visitedCells, nxt,
                                             cellsVisitedCount + 1, rnd1)))
                     else Some (g, visitedCells, nxt, cellsVisitedCount, rnd1))
            else Some (g, visitedCells, cur, cellsVisitedCount, rnd1)))"

definition generateAldousBroderMaze :: "rand \<Rightarrow> nat \<Rightarrow> nat \<Rightarrow> grid option" where
  "generateAldousBroderMaze rnd width height =
     (let currentCell = (int (randomIndex rnd height), int (randomIndex (rest rnd) width));
          cur = cellToGrid currentCell
      in case setCell (newGrid width height 1) (fst cur) (snd cur) 0 of
           None \<Rightarrow> None
         | Some g \<Rightarrow>
             (case whileM (\<lambda>(g, visitedCells, cur, cellsVisitedCount, rnd).
                              cellsVisitedCount < width * height)
                     (aldousBroderBody width height)
                     (g, {currentCell}, cur, 1, rest (rest rnd)) of
                None \<Rightarrow> None
              | Some st \<Rightarrow> openings width height (fst st)))"

subsection \<open>Growing tree (growingTree.ts)\<close>

datatype pick_method = Newest | Oldest | Random

text \<open>\<open>isCell\<close> of this generator tests cell coordinates.\<close>

definition isCellCoord :: "nat \<Rightarrow> nat \<Rightarrow> coord \<Rightarrow> bool" where
  "isCellCoord width height rc =
     (fst rc \<ge> 0 \<and> fst rc < int height \<and> snd rc \<ge> 0 \<and> snd rc < int width)"

text \<open>The grid, \<open>activeCells\<close>, \<open>visitedCells\<close> (both in cell coordinates), the source.\<close>

type_synonym gt_state = "grid \<times> coord list \<times> coord set \<times> rand"

definition growingTreeBody :: "nat \<Rightarrow> nat \<Rightarrow> pick_method \<Rightarrow> gt_state \<Rightarrow> gt_state option" where
  "growingTreeBody width height method st =
     (case st of (g, activeCells, visitedCells, rnd) \<Rightarrow>
        (let (cellIndex, rnd1) =
               (case method of
                  Newest \<Rightarrow> (length activeCells - 1, rnd)
                | Oldest \<Rightarrow> (0, rnd)
                | Random \<Rightarrow> (randomIndex rnd (length activeCells), rest rnd));
             currentCell = activeCells ! cellIndex;
             currentGrid = cellToGrid currentCell;
             unvisitedNeighbors =
               filter (\<lambda>n. isCellCoord width height n \<and> n \<notin> visitedCells)
                 (map (move currentCell) directions4)
         in if length unvisitedNeighbors > 0
            then (let nextCell = unvisitedNeighbors
                                   ! randomIndex rnd1 (length unvisitedNeighbors);
                      nextGrid = cellToGrid nextCell;
                      w = wallBetween currentGrid nextGrid
                  in case setCell g (fst w) (snd w) 0 of
                       None \<Rightarrow> None
                     | Some g1 \<Rightarrow>
                         (case setCell g1 (fst nextGrid) (snd nextGrid) 0 of
                            None \<Rightarrow> None
                          | Some g2 \<Rightarrow>
                              Some (g2, activeCells @ [nextCell], insert nextCell visitedCells,
                                    rest rnd1)))
            else Some (g, take cellIndex activeCells @ drop (Suc cellIndex) activeCells,
                       visitedCells, rnd1)))"

definition generateGrowingTreeMaze :: "rand \<Rightarrow> nat \<Rightarrow> nat \<Rightarrow> pick_method \<Rightarrow> grid option" where
  "generateGrowingTreeMaze rnd width height method =
     (let startCell = (int (randomIndex rnd height), int (randomIndex (rest rnd) width));
          startGrid = cellToGrid startCell
      in case setCell (newGrid width height 1) (fst startGrid) (snd startGrid) 0 of
           None \<Rightarrow> None
         | Some g \<Rightarrow>
             (case whileM (\<lambda>(g, activeCells, visitedCells, rnd). length activeCells > 0)
                     (growingTreeBody width height method)
                     (g, [startCell], {startCell}, rest (rest rnd)) of
                None \<Rightarrow> None
              | Some st \<Rightarrow> openings width height (fst st)))"

subsection \<open>Wilson's algorithm (wilsons.ts)\<close>

text \<open>\<open>visitedCells\<close> holds grid coordinates in this generator.\<close>

definition pickCell :: "nat \<Rightarrow> nat \<Rightarrow> rand \<Rightarrow> coord \<times> rand" where
  "pickCell width height rnd =
     (cellToGrid (int (randomIndex rnd height), int (randomIndex (rest rnd) width)),
      rest (rest rnd))"

text \<open>The \<open>do { ... } while (visitedCells.has(...))\<close> loop that picks where a walk starts.\<close>

definition pickUnvisited :: "nat \<Rightarrow> nat \<Rightarrow> coord set \<Rightarrow> rand \<Rightarrow> (coord \<times> rand) option" where
  "pickUnvisited width height visitedCells rnd =
     whileM (\<lambda>(p, rnd). p \<in> visitedCells) (\<lambda>(p, rnd). Some (pickCell width height rnd))
       (pickCell width height rnd)"

text \<open>The walk: \<open>path\<close>, \<open>pathVisited\<close>, the current grid position, the source.\<close>

type_synonym walk_state = "coord list \<times> coord set \<times> coord \<times> rand"

definition walkBody :: "nat \<Rightarrow> nat \<Rightarrow> walk_state \<Rightarrow> walk_state option" where
  "walkBody width height st =
     (case st of (walkPath, pathVisited, cur, rnd) \<Rightarrow>
        (let d = directions2 ! randomIndex rnd (length directions2);
             nxt = move cur d;
             rnd1 = rest rnd
         in if isCell width height (fst nxt) (snd nxt)
            then (if nxt \<in> pathVisited
                  then (let keep = (case findIndex (\<lambda>p. p = nxt) walkPath of
                                      None \<Rightarrow> 0
                                    | Some loopStartIndex \<Rightarrow> loopStartIndex + 1)
                        in Some (take keep walkPath, pathVisited - set (drop keep walkPath), nxt, rnd1))
                  else Some (walkPath @ [nxt], insert nxt pathVisited, nxt, rnd1))
            else Some (walkPath, pathVisited, cur, rnd1)))"

text \<open>Step 5: carve the cells of the path and the walls between consecutive ones.\<close>

definition carveStep :: "coord list \<Rightarrow> grid \<times> coord set \<Rightarrow> nat \<Rightarrow> (grid \<times> coord set) option" where
  "carveStep walkPath st i =
     (case st of (g, visitedCells) \<Rightarrow>
        (let rc = walkPath ! i
         in case setCell g (fst rc) (snd rc) 0 of
              None \<Rightarrow> None
            | Some g1 \<Rightarrow>
                (if i > 0
                 then (let w = wallBetween rc (walkPath ! (i - 1))
                       in case setCell g1 (fst w) (snd w) 0 of
                            None \<Rightarrow> None
                          | Some g2 \<Rightarrow> Some (g2, insert rc visitedCells))
                 else Some (g1, insert rc visitedCells))))"

type_synonym wilson_state = "grid \<times> coord set \<times> rand"

text \<open>The body of \<open>while (visitedCells.size < width * height)\<close>.\<close>

definition wilsonBody :: "nat \<Rightarrow> nat \<Rightarrow> wilson_state \<Rightarrow> wilson_state option" where
  "wilsonBody width height st =
     (case st of (g, visitedCells, rnd) \<Rightarrow>
        (case pickUnvisited width height visitedCells rnd of
           None \<Rightarrow> None
         | Some (startWalk, rnd1) \<Rightarrow>
             (case whileM (\<lambda>(walkPath, pathVisited, cur, rnd). cur \<notin> visitedCells)
                     (walkBody width height) ([startWalk], {startWalk}, startWalk, rnd1) of
                None \<Rightarrow> None
              | Some (walkPath, pathVisited, cur, rnd2) \<Rightarrow>
                  (case foldM (carveStep walkPath) (g, visitedCells) [0..<length walkPath] of
                     None \<Rightarrow> None
                   | Some (g1, visitedCells1) \<Rightarrow> Some (g1, visitedCells1, rnd2)))))"

definition generateWilsonsMaze :: "rand \<Rightarrow> nat \<Rightarrow> nat \<Rightarrow> grid option" where
  "generateWilsonsMaze rnd width height =
     (case pickCell width height rnd of
        (initialGrid, rnd1) \<Rightarrow>
          (case setCell (newGrid width height 1) (fst initialGrid) (snd initialGrid) 0 of
             None \<Rightarrow> None
           | Some g \<Rightarrow>
               (case whileM (\<lambda>(g, visitedCells, rnd). card visitedCells < width * height)
                       (wilsonBody width height) (g, {initialGrid}, rnd1) of
                  None \<Rightarrow> None
                | Some st \<Rightarrow> openings width height (fst st))))"

section \<open>Properties of the generators\<close>

subsection \<open>Recursive division leaves chambers of two cells undivided\<close>

text \<open>
  C6. The source says of \<open>divide\<close> that it stops when the chamber is ``less than 2x2
  cells'', and takes a chamber of 2 by 2 cells to span 5 grid positions; but \<open>divide\<close> is
  called on the chamber without the walls around it, where 2 cells span 3 positions
  (\<open>r2 - r1 = 2\<close>), so its test \<open>r2 - r1 < 4 || c2 - c1 < 4\<close> stops at every chamber with
  fewer than 3 cells along either axis. The 2 by 2 maze is returned as one open room, for
  every outcome of the random choices.
\<close>

theorem division_leaves_2x2_room:
  "generateRecursiveDivisionMaze rnd 2 2 = Some mazeRD2x2"
proof -
  let ?g = "[[1, 1, 1, 1, 1], [1, 0, 0, 0, 1], [1, 0, 0, 0, 1], [1, 0, 0, 0, 1],
            [1, 1, 1, 1, 1 :: int]]"
  have a: "addOuterWalls 2 2 (newGrid 2 2 0) = Some ?g"
    by code_simp
  have d: "divide (?g, rnd) 1 1 3 3 = Some (?g, rnd)"
    by (subst divide.simps) simp
  have o: "openings 2 2 ?g = Some mazeRD2x2"
    by code_simp
  show ?thesis
    by (simp add: generateRecursiveDivisionMaze_def a gridHeight_def gridWidth_def d o)
qed

subsection \<open>The recursive backtracker can leave a cell uncarved\<close>

text \<open>
  C1. Every call of \<open>carvePath\<close> sorts the one shared \<open>directions\<close> array in place, while
  the loops of the calls below it on the stack are still iterating over that array. After
  a recursive call returns, the caller goes on at its next index in a reordered array, so
  a direction can be skipped. In the 3 by 1 maze, starting at the middle cell: the first
  order tried is left, up, down, right; the call for the left cell reorders to right, left,
  up, down; back in the middle cell, positions 1 to 3 are left, up, down, and right is
  never tried. The cell \<open>(1,5)\<close> stays a wall: two interior path cells instead of three.
\<close>

theorem backtracker_skips_cell:
  "generateRecursiveBacktrackerMaze [0, 1, 2, 3] 3 1
     = Some [[1, 1, 1, 1, 1, 1, 1],
             [0, 0, 0, 0, 1, 1, 0],
             [1, 1, 1, 1, 1, 1, 1]]"
  by code_simp

subsection \<open>The outer ring\<close>

text \<open>A position on the outermost ring of the grid of a \<open>width\<close> by \<open>height\<close> maze.\<close>

definition onRing :: "nat \<Rightarrow> nat \<Rightarrow> int \<Rightarrow> int \<Rightarrow> bool" where
  "onRing width height r c =
     (0 \<le> r \<and> r < int (gridHeight height) \<and> 0 \<le> c \<and> c < int (gridWidth width)
      \<and> (r = 0 \<or> r = int (gridHeight height) - 1 \<or> c = 0 \<or> c = int (gridWidth width) - 1))"

text \<open>The grid has its dimensions and every ring position is a wall.\<close>

definition ringWalls :: "nat \<Rightarrow> nat \<Rightarrow> grid \<Rightarrow> bool" where
  "ringWalls width height g =
     (length g = gridHeight height \<and> (\<forall>row \<in> set g. length row = gridWidth width)
      \<and> (\<forall>r c. onRing width height r c \<longrightarrow> cell g r c = Some 1))"

text \<open>What C3 says of a returned grid.\<close>

definition ringSpec :: "nat \<Rightarrow> nat \<Rightarrow> grid \<Rightarrow> bool" where
  "ringSpec width height g =
     (\<forall>r c. onRing width height r c \<longrightarrow>
        cell g r c = Some (if (r, c) = (1, 0)
                              \<or> (r, c) = (int (gridHeight height) - 2, int (gridWidth width) - 1)
                           then 0 else 1))"

definition sameDims :: "grid \<Rightarrow> grid \<Rightarrow> bool" where
  "sameDims g g' = (length g' = length g \<and> (\<forall>i < length g. length (g' ! i) = length (g ! i)))"

lemma setCell_Some:
  assumes "setCell g r c v = Some g'"
  shows "0 \<le> r" "r < int (length g)" "0 \<le> c" "c < int (length (g ! nat r))"
    "g' = g[nat r := (g ! nat r)[nat c := v]]"
  using assms by (auto simp: setCell_def split: if_splits)

lemma cell_setCell:
  assumes "setCell g r c v = Some g'"
  shows "cell g' r' c' = (if r' = r \<and> c' = c then Some v else cell g r' c')"
proof -
  note s = setCell_Some [OF assms]
  show ?thesis
  proof (cases "0 \<le> r' \<and> r' < int (length g)")
    case False
    with s show ?thesis by (auto simp: cell_def)
  next
    case True
    show ?thesis
    proof (cases "r' = r")
      case False
      with True s have "g' ! nat r' = g ! nat r'" by (simp add: nat_eq_iff)
      with True s show ?thesis using False by (simp add: cell_def)
    next
      case r: True
      have row: "g' ! nat r' = (g ! nat r)[nat c := v]"
        using s r by simp
      show ?thesis
      proof (cases "0 \<le> c' \<and> c' < int (length (g ! nat r))")
        case False
        with True s r row show ?thesis by (auto simp: cell_def)
      next
        case c: True
        with True s r row show ?thesis
          by (auto simp: cell_def nth_list_update nat_eq_iff)
      qed
    qed
  qed
qed

lemma setCell_dims:
  assumes "setCell g r c v = Some g'"
  shows "length g' = length g" "(\<forall>row \<in> set g. length row = w) \<Longrightarrow> (\<forall>row \<in> set g'. length row = w)"
proof -
  note s = setCell_Some [OF assms]
  show "length g' = length g" using s by simp
  assume a: "\<forall>row \<in> set g. length row = w"
  show "\<forall>row \<in> set g'. length row = w"
  proof
    fix row assume "row \<in> set g'"
    then have "row \<in> insert ((g ! nat r)[nat c := v]) (set g)"
      using s(5) set_update_subset_insert [of g "nat r" "(g ! nat r)[nat c := v]"] by auto
    moreover have "g ! nat r \<in> set g" using s by (simp add: nat_less_iff)
    ultimately show "length row = w" using a by auto
  qed
qed

lemma setCell_inside:
  assumes "ringWalls w h g" "insideRing w h r c"
  shows "\<exists>g'. setCell g r c v = Some g' \<and> ringWalls w h g'"
proof -
  have r: "0 \<le> r" "r < int (length g)"
    using assms by (auto simp: ringWalls_def insideRing_def)
  then have "g ! nat r \<in> set g" by (simp add: nat_less_iff)
  then have c: "0 \<le> c" "c < int (length (g ! nat r))"
    using assms by (auto simp: ringWalls_def insideRing_def)
  from r c obtain g' where g': "setCell g r c v = Some g'"
    by (auto simp: setCell_def)
  have "\<not> onRing w h r c"
    using assms(2) by (auto simp: onRing_def insideRing_def)
  then have "\<forall>r' c'. onRing w h r' c' \<longrightarrow> cell g' r' c' = Some 1"
    using assms(1) by (auto simp: cell_setCell [OF g'] ringWalls_def)
  with setCell_dims [OF g'] assms(1) g' show ?thesis
    by (auto simp: ringWalls_def)
qed

lemma setCell_inside_ring:
  "ringWalls w h g \<Longrightarrow> insideRing w h r c \<Longrightarrow> setCell g r c v = Some g' \<Longrightarrow> ringWalls w h g'"
  using setCell_inside [of w h g r c v] by auto

text \<open>A write of a wall keeps the ring whatever its position.\<close>

lemma setCell_wall_ring:
  assumes "ringWalls w h g" "setCell g r c 1 = Some g'"
  shows "ringWalls w h g'"
  using assms setCell_dims [OF assms(2)]
  by (auto simp: ringWalls_def cell_setCell [OF assms(2)])

lemma ringWalls_newGrid: "ringWalls w h (newGrid w h 1)"
  by (auto simp: ringWalls_def newGrid_def cell_def onRing_def)

lemma openings_ring:
  assumes "ringWalls w h g" "1 \<le> w" "1 \<le> h" "openings w h g = Some g'"
  shows "ringSpec w h g'"
proof -
  from assms(4) obtain g1 where 1: "setCell g 1 0 0 = Some g1"
    and 2: "setCell g1 (int (gridHeight h) - 2) (int (gridWidth w) - 1) 0 = Some g'"
    by (auto simp: openings_def split: option.splits)
  show ?thesis
    unfolding ringSpec_def
  proof (intro allI impI)
    fix r c assume "onRing w h r c"
    then have "cell g r c = Some 1"
      using assms(1) by (simp add: ringWalls_def)
    then show "cell g' r c = Some (if (r, c) = (1, 0)
        \<or> (r, c) = (int (gridHeight h) - 2, int (gridWidth w) - 1) then 0 else 1)"
      by (auto simp: cell_setCell [OF 2] cell_setCell [OF 1])
  qed
qed

lemma foldM_invariant:
  assumes "foldM f s xs = Some s'" "I s"
    and "\<And>x s s'. x \<in> set xs \<Longrightarrow> I s \<Longrightarrow> f s x = Some s' \<Longrightarrow> I s'"
  shows "I s'"
  using assms
proof (induction xs arbitrary: s)
  case Nil
  then show ?case by simp
next
  case (Cons x xs)
  from Cons.prems(1) obtain s1 where 1: "f s x = Some s1" and 2: "foldM f s1 xs = Some s'"
    by (auto split: option.splits)
  have "I s1" using Cons.prems(3) [of x s s1] Cons.prems(2) 1 by simp
  show ?case
    by (rule Cons.IH [OF 2 \<open>I s1\<close>]) (use Cons.prems(3) in auto)
qed

lemma whileM_invariant_aux:
  assumes "whileM b body s = Some t"
  shows "(\<forall>s s'. I s \<and> b s \<and> body s = Some s' \<longrightarrow> I s') \<longrightarrow> I s \<longrightarrow> I t \<and> \<not> b t"
proof (induct rule: whileM.raw_induct [OF _ assms])
  case (1 whileM b body s t)
  show ?case
  proof (intro impI)
    assume step: "\<forall>s s'. I s \<and> b s \<and> body s = Some s' \<longrightarrow> I s'" and s: "I s"
    show "I t \<and> \<not> b t"
    proof (cases "b s")
      case False
      with 1(2) have "t = s" by simp
      with False s show ?thesis by simp
    next
      case True
      with 1(2) obtain s1 where s1: "body s = Some s1" "whileM b body s1 = Some t"
        by (auto simp: bind_eq_Some_conv)
      have "I s1" using step s True s1(1) by blast
      with 1(1) [OF s1(2)] step show ?thesis by simp
    qed
  qed
qed

lemma whileM_invariant:
  assumes "whileM b body s = Some t" "I s"
    and "\<And>s s'. I s \<Longrightarrow> b s \<Longrightarrow> body s = Some s' \<Longrightarrow> I s'"
  shows "I t \<and> \<not> b t"
proof -
  have "\<forall>s s'. I s \<and> b s \<and> body s = Some s' \<longrightarrow> I s'"
    using assms(3) by blast
  with whileM_invariant_aux [OF assms(1), of I] assms(2) show ?thesis
    by simp
qed

lemma insideRing_cell:
  "i < h \<Longrightarrow> j < w \<Longrightarrow> insideRing w h (2 * int i + 1) (2 * int j + 1)"
  by (auto simp: insideRing_def gridHeight_def gridWidth_def)

lemma cellPositions_inside:
  "rc \<in> set (cellPositions w h) \<Longrightarrow> insideRing w h (fst rc) (snd rc)"
  by (auto simp: cellPositions_def oddIndices_def insideRing_cell)

lemma insideRing_up: "insideRing w h r c \<Longrightarrow> r > 1 \<Longrightarrow> insideRing w h (r - 1) c"
  by (auto simp: insideRing_def)

lemma insideRing_left: "insideRing w h r c \<Longrightarrow> c > 1 \<Longrightarrow> insideRing w h r (c - 1)"
  by (auto simp: insideRing_def)

lemma isCell_inside: "isCell w h r c \<Longrightarrow> insideRing w h r c"
  by (simp add: isCell_def insideRing_def)

text \<open>The position halfway between two positions inside the ring is inside the ring.\<close>

lemma wallBetween_inside:
  assumes "insideRing w h (fst a) (snd a)" "insideRing w h (fst b) (snd b)"
  shows "insideRing w h (fst (wallBetween a b)) (snd (wallBetween a b))"
  using assms by (auto simp: insideRing_def wallBetween_def)

lemma half_step_inside:
  assumes "insideRing w h r c" "insideRing w h (r + dr) (c + dc)"
  shows "insideRing w h (r + dr div 2) (c + dc div 2)"
  using assms by (auto simp: insideRing_def)

subsubsection \<open>Binary tree\<close>

lemma binaryTreeCell_ring:
  assumes g: "ringWalls w h (fst st)" and i: "insideRing w h (fst rc) (snd rc)"
    and b: "binaryTreeCell st rc = Some st'"
  shows "ringWalls w h (fst st')"
proof -
  obtain g0 rnd where st: "st = (g0, rnd)" by (cases st)
  obtain r c where rc: "rc = (r, c)" by (cases rc)
  from b obtain g1 where 1: "setCell g0 r c 0 = Some g1"
    by (auto simp: binaryTreeCell_def st rc split: option.splits)
  have g1: "ringWalls w h g1"
    using setCell_inside_ring [OF _ _ 1] g i by (simp add: st rc)
  have up: "ringWalls w h m" if "r > 1" "setCell g1 (r - 1) c 0 = Some m" for m
    using setCell_inside_ring [OF g1 insideRing_up that(2)] i that(1) by (simp add: rc)
  have left: "ringWalls w h m" if "c > 1" "setCell g1 r (c - 1) 0 = Some m" for m
    using setCell_inside_ring [OF g1 insideRing_left that(2)] i that(1) by (simp add: rc)
  from b 1 show ?thesis
    by (auto simp: binaryTreeCell_def st rc Let_def g1 split: if_splits dest: up left)
qed

lemma binaryTree_ring:
  assumes "generateBinaryTreeMaze rnd w h = Some g" "1 \<le> w" "1 \<le> h"
  shows "ringSpec w h g"
proof -
  from assms(1) obtain st where f: "foldM binaryTreeCell (newGrid w h 1, rnd) (cellPositions w h) = Some st"
    and o: "openings w h (fst st) = Some g"
    by (auto simp: generateBinaryTreeMaze_def split: option.splits)
  have "ringWalls w h (fst st)"
    by (rule foldM_invariant [OF f, where I = "\<lambda>s. ringWalls w h (fst s)"])
      (auto simp: ringWalls_newGrid intro: binaryTreeCell_ring cellPositions_inside)
  then show ?thesis
    using assms(2,3) o by (rule openings_ring)
qed

subsubsection \<open>Kruskal\<close>

lemma horizontalWalls_inside:
  "(wr, wc, cs) \<in> set (horizontalWalls w h) \<Longrightarrow> insideRing w h wr wc"
  by (auto simp: horizontalWalls_def insideRing_def gridHeight_def gridWidth_def)

lemma verticalWalls_inside:
  "(wr, wc, cs) \<in> set (verticalWalls w h) \<Longrightarrow> insideRing w h wr wc"
  by (auto simp: verticalWalls_def insideRing_def gridHeight_def gridWidth_def)

lemma kruskalWall_ring:
  assumes g: "ringWalls w h (fst st)" and i: "insideRing w h (fst wl) (fst (snd wl))"
    and k: "kruskalWall width st wl = Some st'"
  shows "ringWalls w h (fst st')"
proof -
  obtain g0 parent rank where st: "st = (g0, parent, rank)" by (cases st)
  obtain wr wc r1 c1 r2 c2 where wl: "wl = (wr, wc, (r1, c1), (r2, c2))" by (cases wl) auto
  have "fst st' = g0 \<or> setCell g0 wr wc 0 = Some (fst st')"
    using k by (auto simp: kruskalWall_def st wl Let_def split: option.splits if_splits)
  then show ?thesis
    using g i setCell_inside_ring [of w h g0 wr wc 0 "fst st'"] by (auto simp: st wl)
qed

lemma kruskal_ring:
  assumes "generateKruskalsMaze rnd w h = Some g" "1 \<le> w" "1 \<le> h"
  shows "ringSpec w h g"
proof -
  let ?walls = "shuffle (draw rnd) (horizontalWalls w h @ verticalWalls w h)"
  from assms(1) obtain g1 st where f1: "foldM kruskalInitCell (newGrid w h 1) (cellPositions w h) = Some g1"
    and f2: "foldM (kruskalWall w) (g1, [0..<h * w], replicate (h * w) 0) ?walls = Some st"
    and o: "openings w h (fst st) = Some g"
    by (auto simp: generateKruskalsMaze_def Let_def split: option.splits)
  have 1: "ringWalls w h g1"
    by (rule foldM_invariant [OF f1, where I = "ringWalls w h"])
      (auto simp: ringWalls_newGrid kruskalInitCell_def
        intro: setCell_inside_ring cellPositions_inside)
  have in_walls: "insideRing w h (fst wl) (fst (snd wl))" if "wl \<in> set ?walls" for wl
    using that horizontalWalls_inside [of "fst wl" "fst (snd wl)" "snd (snd wl)" w h]
      verticalWalls_inside [of "fst wl" "fst (snd wl)" "snd (snd wl)" w h]
    by auto
  have "ringWalls w h (fst st)"
    by (rule foldM_invariant [OF f2, where I = "\<lambda>s. ringWalls w h (fst s)"])
      (auto simp: 1 intro: kruskalWall_ring in_walls simp del: set_shuffle)
  then show ?thesis
    using assms(2,3) o by (rule openings_ring)
qed


lemma set_remove_nth: "set (take i xs @ drop (Suc i) xs) \<subseteq> set xs"
  by (auto dest: in_set_takeD in_set_dropD)

lemma start_inside:
  assumes "1 \<le> w" "1 \<le> h"
  shows "insideRing w h (int (randomIndex rnd h) * 2 + 1) (int (randomIndex rnd' w) * 2 + 1)"
proof -
  have "randomIndex rnd h < h" "randomIndex rnd' w < w"
    using assms by (simp_all add: randomIndex_less)
  then show ?thesis
    using insideRing_cell [of "randomIndex rnd h" h "randomIndex rnd' w" w]
    by (simp add: mult.commute)
qed

subsubsection \<open>Prim\<close>

definition wallsInside :: "nat \<Rightarrow> nat \<Rightarrow> coord list \<Rightarrow> bool" where
  "wallsInside w h ws = (\<forall>p \<in> set ws. insideRing w h (fst p) (snd p))"

lemma addWalls_inside:
  assumes "wallsInside w h ws"
  shows "wallsInside w h (addWalls w h dedup g rc ws)"
  unfolding addWalls_def
  by (rule foldl_invariant [where P = "wallsInside w h", OF assms])
    (auto simp: wallsInside_def Let_def)

lemma primBody_ring:
  assumes g: "ringWalls w h (fst st)" and ws: "wallsInside w h (fst (snd st))"
    and ne: "fst (snd st) \<noteq> []"
    and b: "primBody w h st = Some st'"
  shows "ringWalls w h (fst st') \<and> wallsInside w h (fst (snd st'))"
proof -
  obtain g0 walls rnd where st: "st = (g0, walls, rnd)" by (cases st)
  let ?k = "randomIndex rnd (length walls)"
  let ?wl = "walls ! ?k"
  let ?walls1 = "take ?k walls @ drop (Suc ?k) walls"
  let ?found = "filter (\<lambda>p. isCell w h (fst p) (snd p)) (map (move ?wl) directions4)"
  have wl: "insideRing w h (fst ?wl) (snd ?wl)"
    using ws ne nth_randomIndex_mem [of walls rnd] by (simp add: st wallsInside_def)
  have w1: "wallsInside w h ?walls1"
    using ws set_remove_nth [of ?k walls] by (auto simp: st wallsInside_def)
  have carve: "ringWalls w h g2 \<and> wallsInside w h (addWalls w h True g2 p ?walls1)"
    if "p \<in> set ?found" "setCell g0 (fst ?wl) (snd ?wl) 0 = Some g1"
      "setCell g1 (fst p) (snd p) 0 = Some g2" for p g1 g2
  proof -
    have "ringWalls w h g1"
      using setCell_inside_ring [OF _ wl that(2)] g by (simp add: st)
    moreover have "insideRing w h (fst p) (snd p)"
      using that(1) by (auto intro: isCell_inside)
    ultimately have "ringWalls w h g2"
      using setCell_inside_ring [OF _ _ that(3)] by simp
    with addWalls_inside [OF w1] show ?thesis by simp
  qed
  show ?thesis
  proof (cases ?found)
    case Nil
    with b w1 g show ?thesis
      by (auto simp: primBody_def st Let_def)
  next
    case (Cons cell1 rest1)
    note c1 = Cons
    show ?thesis
    proof (cases rest1)
      case Nil
      with b w1 g c1 show ?thesis
        by (auto simp: primBody_def st Let_def)
    next
      case (Cons cell2 rest2)
      have m: "cell1 \<in> set ?found" "cell2 \<in> set ?found"
        unfolding c1 Cons by simp_all
      from b c1 Cons have "st' = (g0, ?walls1, rest rnd)
        \<or> (\<exists>g1 g2. setCell g0 (fst ?wl) (snd ?wl) 0 = Some g1
              \<and> setCell g1 (fst cell2) (snd cell2) 0 = Some g2
              \<and> st' = (g2, addWalls w h True g2 cell2 ?walls1, rest rnd))
        \<or> (\<exists>g1 g2. setCell g0 (fst ?wl) (snd ?wl) 0 = Some g1
              \<and> setCell g1 (fst cell1) (snd cell1) 0 = Some g2
              \<and> st' = (g2, addWalls w h True g2 cell1 ?walls1, rest rnd))"
        by (simp add: primBody_def st Let_def split: if_splits option.splits)
      then show ?thesis
        using carve [OF m(1)] carve [OF m(2)] w1 g by (auto simp: st)
    qed
  qed
qed

lemma prims_ring:
  assumes "generatePrimsMaze rnd w h = Some g" "1 \<le> w" "1 \<le> h"
  shows "ringSpec w h g"
proof -
  let ?r = "int (randomIndex rnd h) * 2 + 1" and ?c = "int (randomIndex (rest rnd) w) * 2 + 1"
  from assms(1) obtain g1 st where s: "setCell (newGrid w h 1) ?r ?c 0 = Some g1"
    and l: "whileM (\<lambda>(g, walls, rnd). length walls > 0) (primBody w h)
              (g1, addWalls w h False g1 (?r, ?c) [], rest (rest rnd)) = Some st"
    and o: "openings w h (fst st) = Some g"
    by (auto simp: generatePrimsMaze_def Let_def split: option.splits)
  have 1: "ringWalls w h g1"
    using setCell_inside_ring [OF ringWalls_newGrid start_inside s] assms(2,3) by simp
  have 2: "wallsInside w h (addWalls w h False g1 (?r, ?c) [])"
    by (rule addWalls_inside) (simp add: wallsInside_def)
  have "(ringWalls w h (fst st) \<and> wallsInside w h (fst (snd st)))
      \<and> \<not> (case st of (g, walls, rnd) \<Rightarrow> length walls > 0)"
  proof (rule whileM_invariant [OF l,
        where I = "\<lambda>s. ringWalls w h (fst s) \<and> wallsInside w h (fst (snd s))"])
    show "ringWalls w h (fst (g1, addWalls w h False g1 (?r, ?c) [], rest (rest rnd)))
        \<and> wallsInside w h (fst (snd (g1, addWalls w h False g1 (?r, ?c) [], rest (rest rnd))))"
      using 1 2 by simp
  next
    fix s s' :: prim_state
    assume "ringWalls w h (fst s) \<and> wallsInside w h (fst (snd s))"
      and "case s of (g, walls, rnd) \<Rightarrow> length walls > 0" and "primBody w h s = Some s'"
    then show "ringWalls w h (fst s') \<and> wallsInside w h (fst (snd s'))"
      by (intro primBody_ring [of w h s s']) (auto split: prod.splits)
  qed
  then show ?thesis
    using assms(2,3) o by (intro openings_ring [of w h "fst st"]) simp_all
qed

lemma cellToGrid_inside:
  assumes "isCellCoord w h rc"
  shows "insideRing w h (fst (cellToGrid rc)) (snd (cellToGrid rc))"
  using assms
  by (auto simp: isCellCoord_def cellToGrid_def insideRing_def gridHeight_def gridWidth_def)

lemma randomCell_isCellCoord:
  assumes "1 \<le> w" "1 \<le> h"
  shows "isCellCoord w h (int (randomIndex rnd h), int (randomIndex rnd' w))"
  using assms by (simp add: isCellCoord_def randomIndex_less)

subsubsection \<open>Aldous-Broder\<close>

lemma aldousBroderBody_ring:
  assumes g: "ringWalls w h (fst st)" and c: "insideRing w h (fst (fst (snd (snd st)))) (snd (fst (snd (snd st))))"
    and b: "aldousBroderBody w h st = Some st'"
  shows "ringWalls w h (fst st')
       \<and> insideRing w h (fst (fst (snd (snd st')))) (snd (fst (snd (snd st'))))"
proof -
  obtain g0 vis cur n rnd where st: "st = (g0, vis, cur, n, rnd)" by (cases st)
  let ?nxt = "move cur (directions2 ! randomIndex rnd (length directions2))"
  let ?wl = "wallBetween cur ?nxt"
  have cur: "insideRing w h (fst cur) (snd cur)" using c by (simp add: st)
  show ?thesis
  proof (cases "isCell w h (fst ?nxt) (snd ?nxt)")
    case False
    with b g cur show ?thesis
      by (auto simp: aldousBroderBody_def st Let_def)
  next
    case True
    then have nx: "insideRing w h (fst ?nxt) (snd ?nxt)" by (rule isCell_inside)
    have wl: "insideRing w h (fst ?wl) (snd ?wl)"
      using cur nx by (rule wallBetween_inside)
    from b True have "st' = (g0, vis, ?nxt, n, rest rnd)
      \<or> (\<exists>g1 g2. setCell g0 (fst ?wl) (snd ?wl) 0 = Some g1
            \<and> setCell g1 (fst ?nxt) (snd ?nxt) 0 = Some g2
            \<and> st' = (g2, insert (gridToCell ?nxt) vis, ?nxt, n + 1, rest rnd))"
      by (simp add: aldousBroderBody_def st Let_def split: if_splits option.splits)
    then show ?thesis
    proof (elim disjE exE conjE)
      assume "st' = (g0, vis, ?nxt, n, rest rnd)"
      with g nx show ?thesis by (simp add: st)
    next
      fix g1 g2
      assume 1: "setCell g0 (fst ?wl) (snd ?wl) 0 = Some g1"
        and 2: "setCell g1 (fst ?nxt) (snd ?nxt) 0 = Some g2"
        and s: "st' = (g2, insert (gridToCell ?nxt) vis, ?nxt, n + 1, rest rnd)"
      have "ringWalls w h g1"
        using setCell_inside_ring [OF _ wl 1] g by (simp add: st)
      then have "ringWalls w h g2"
        using setCell_inside_ring [OF _ nx 2] by simp
      with nx s show ?thesis by simp
    qed
  qed
qed

lemma aldousBroder_ring:
  assumes "generateAldousBroderMaze rnd w h = Some g" "1 \<le> w" "1 \<le> h"
  shows "ringSpec w h g"
proof -
  let ?cc = "(int (randomIndex rnd h), int (randomIndex (rest rnd) w))"
  let ?cur = "cellToGrid ?cc"
  let ?I = "\<lambda>s :: ab_state. ringWalls w h (fst s)
       \<and> insideRing w h (fst (fst (snd (snd s)))) (snd (fst (snd (snd s))))"
  from assms(1) obtain g1 st where s: "setCell (newGrid w h 1) (fst ?cur) (snd ?cur) 0 = Some g1"
    and l: "whileM (\<lambda>(g, visitedCells, cur, cellsVisitedCount, rnd). cellsVisitedCount < w * h)
              (aldousBroderBody w h) (g1, {?cc}, ?cur, 1, rest (rest rnd)) = Some st"
    and o: "openings w h (fst st) = Some g"
    by (auto simp: generateAldousBroderMaze_def Let_def split: option.splits)
  have c: "insideRing w h (fst ?cur) (snd ?cur)"
    using assms(2,3) by (intro cellToGrid_inside randomCell_isCellCoord)
  have 1: "ringWalls w h g1"
    using setCell_inside_ring [OF ringWalls_newGrid c s] .
  have "?I st \<and> \<not> (case st of (g, visitedCells, cur, cellsVisitedCount, rnd) \<Rightarrow>
      cellsVisitedCount < w * h)"
  proof (rule whileM_invariant [OF l, where I = ?I])
    show "?I (g1, {?cc}, ?cur, 1, rest (rest rnd))"
      using 1 c by simp
  next
    fix s s' :: ab_state
    assume "?I s" and "aldousBroderBody w h s = Some s'"
    then show "?I s'"
      using aldousBroderBody_ring [of w h s s'] by simp
  qed
  then show ?thesis
    using assms(2,3) o by (intro openings_ring [of w h "fst st"]) simp_all
qed

subsubsection \<open>Growing tree\<close>

lemma growingTreeBody_ring:
  assumes g: "ringWalls w h (fst st)" and a: "\<forall>p \<in> set (fst (snd st)). isCellCoord w h p"
    and ne: "fst (snd st) \<noteq> []"
    and b: "growingTreeBody w h method st = Some st'"
  shows "ringWalls w h (fst st') \<and> (\<forall>p \<in> set (fst (snd st')). isCellCoord w h p)"
proof -
  obtain g0 act vis rnd where st: "st = (g0, act, vis, rnd)" by (cases st)
  obtain cellIndex rnd1 where pick: "(case method of
        Newest \<Rightarrow> (length act - 1, rnd)
      | Oldest \<Rightarrow> (0, rnd)
      | Random \<Rightarrow> (randomIndex rnd (length act), rest rnd)) = (cellIndex, rnd1)"
    by (cases "(case method of
        Newest \<Rightarrow> (length act - 1, rnd)
      | Oldest \<Rightarrow> (0, rnd)
      | Random \<Rightarrow> (randomIndex rnd (length act), rest rnd))")
  have act: "act \<noteq> []" using ne by (simp add: st)
  then have "length act > 0" by simp
  then have idx: "cellIndex < length act"
    using pick randomIndex_less [of "length act" rnd] by (cases "method") auto
  let ?cur = "act ! cellIndex"
  let ?un = "filter (\<lambda>n. isCellCoord w h n \<and> n \<notin> vis) (map (move ?cur) directions4)"
  let ?nc = "?un ! randomIndex rnd1 (length ?un)"
  let ?wl = "wallBetween (cellToGrid ?cur) (cellToGrid ?nc)"
  have cur: "isCellCoord w h ?cur" using a idx by (simp add: st)
  have rm: "\<forall>p \<in> set (take cellIndex act @ drop (Suc cellIndex) act). isCellCoord w h p"
    using a set_remove_nth [of cellIndex act] by (auto simp: st)
  show ?thesis
  proof (cases "?un = []")
    case True
    with b pick have "st' = (g0, take cellIndex act @ drop (Suc cellIndex) act, vis, rnd1)"
      by (simp add: growingTreeBody_def st Let_def)
    with g rm show ?thesis
      by (simp add: st)
  next
    case False
    then have "?nc \<in> set ?un" by (rule nth_randomIndex_mem)
    then have nc: "isCellCoord w h ?nc" by simp
    have wl: "insideRing w h (fst ?wl) (snd ?wl)"
      using cur nc by (intro wallBetween_inside cellToGrid_inside)
    from b pick False obtain g1 g2 where 1: "setCell g0 (fst ?wl) (snd ?wl) 0 = Some g1"
      and 2: "setCell g1 (fst (cellToGrid ?nc)) (snd (cellToGrid ?nc)) 0 = Some g2"
      and s: "st' = (g2, act @ [?nc], insert ?nc vis, rest rnd1)"
      by (auto simp: growingTreeBody_def st Let_def split: option.splits)
    have "ringWalls w h g1"
      using setCell_inside_ring [OF _ wl 1] g by (simp add: st)
    then have "ringWalls w h g2"
      using setCell_inside_ring [OF _ cellToGrid_inside [OF nc] 2] by simp
    with s a nc show ?thesis by (auto simp: st)
  qed
qed

lemma growingTree_ring:
  assumes "generateGrowingTreeMaze rnd w h method = Some g" "1 \<le> w" "1 \<le> h"
  shows "ringSpec w h g"
proof -
  let ?cc = "(int (randomIndex rnd h), int (randomIndex (rest rnd) w))"
  let ?I = "\<lambda>s :: gt_state. ringWalls w h (fst s) \<and> (\<forall>p \<in> set (fst (snd s)). isCellCoord w h p)"
  from assms(1) obtain g1 st
    where s: "setCell (newGrid w h 1) (fst (cellToGrid ?cc)) (snd (cellToGrid ?cc)) 0 = Some g1"
    and l: "whileM (\<lambda>(g, activeCells, visitedCells, rnd). length activeCells > 0)
              (growingTreeBody w h method) (g1, [?cc], {?cc}, rest (rest rnd)) = Some st"
    and o: "openings w h (fst st) = Some g"
    by (auto simp: generateGrowingTreeMaze_def Let_def split: option.splits)
  have cc: "isCellCoord w h ?cc"
    using assms(2,3) by (rule randomCell_isCellCoord)
  have 1: "ringWalls w h g1"
    using setCell_inside_ring [OF ringWalls_newGrid cellToGrid_inside [OF cc] s] .
  have "?I st \<and> \<not> (case st of (g, activeCells, visitedCells, rnd) \<Rightarrow> length activeCells > 0)"
  proof (rule whileM_invariant [OF l, where I = ?I])
    show "?I (g1, [?cc], {?cc}, rest (rest rnd))"
      using 1 cc by simp
  next
    fix s s' :: gt_state
    assume "?I s" and "case s of (g, activeCells, visitedCells, rnd) \<Rightarrow> length activeCells > 0"
      and "growingTreeBody w h method s = Some s'"
    then show "?I s'"
      by (intro growingTreeBody_ring [of w h s "method" "s'"]) (auto split: prod.splits)
  qed
  then show ?thesis
    using assms(2,3) o by (intro openings_ring [of w h "fst st"]) simp_all
qed

subsubsection \<open>Wilson\<close>

definition allInside :: "nat \<Rightarrow> nat \<Rightarrow> coord list \<Rightarrow> bool" where
  "allInside w h ps = (\<forall>p \<in> set ps. insideRing w h (fst p) (snd p))"

lemma pickCell_inside:
  assumes "1 \<le> w" "1 \<le> h"
  shows "insideRing w h (fst (fst (pickCell w h rnd))) (snd (fst (pickCell w h rnd)))"
  unfolding pickCell_def fst_conv
  using assms by (intro cellToGrid_inside randomCell_isCellCoord)

lemma pickUnvisited_inside:
  assumes "pickUnvisited w h vis rnd = Some (p, rnd')" "1 \<le> w" "1 \<le> h"
  shows "insideRing w h (fst p) (snd p)"
proof -
  let ?I = "\<lambda>s :: coord \<times> rand. insideRing w h (fst (fst s)) (snd (fst s))"
  have "?I (p, rnd') \<and> \<not> (case (p, rnd') of (p, rnd) \<Rightarrow> p \<in> vis)"
  proof (rule whileM_invariant [OF assms(1) [unfolded pickUnvisited_def], where I = ?I])
    show "?I (pickCell w h rnd)"
      using assms(2,3) by (rule pickCell_inside)
  next
    fix s s' :: "coord \<times> rand"
    assume "(case s of (p, rnd) \<Rightarrow> Some (pickCell w h rnd)) = Some s'"
    then have "s' = pickCell w h (snd s)"
      by (auto split: prod.splits)
    then show "?I s'"
      using pickCell_inside [OF assms(2,3)] by simp
  qed
  then show ?thesis by simp
qed

lemma walkBody_inside:
  assumes "allInside w h (fst st)" "walkBody w h st = Some st'"
  shows "allInside w h (fst st')"
proof -
  obtain wp pv cur rnd where st: "st = (wp, pv, cur, rnd)" by (cases st)
  let ?nxt = "move cur (directions2 ! randomIndex rnd (length directions2))"
  from assms(2) have "fst st' = wp \<or> (\<exists>k. fst st' = take k wp)
      \<or> (isCell w h (fst ?nxt) (snd ?nxt) \<and> fst st' = wp @ [?nxt])"
    by (auto simp: walkBody_def st Let_def split: if_splits)
  then show ?thesis
  proof (elim disjE exE conjE)
    assume "fst st' = wp"
    with assms(1) show ?thesis by (simp add: st)
  next
    fix k assume "fst st' = take k wp"
    moreover have "set (take k wp) \<subseteq> set wp" by (rule set_take_subset)
    ultimately show ?thesis using assms(1) unfolding allInside_def st by auto
  next
    assume c: "isCell w h (fst ?nxt) (snd ?nxt)" and e: "fst st' = wp @ [?nxt]"
    from c have "insideRing w h (fst ?nxt) (snd ?nxt)" by (rule isCell_inside)
    with assms(1) show ?thesis unfolding allInside_def st e by auto
  qed
qed

lemma carveStep_ring:
  assumes "ringWalls w h (fst st)" "allInside w h wp" "i < length wp"
    and "carveStep wp st i = Some st'"
  shows "ringWalls w h (fst st')"
proof -
  obtain g0 vis where st: "st = (g0, vis)" by (cases st)
  let ?rc = "wp ! i"
  have rc: "insideRing w h (fst ?rc) (snd ?rc)"
    using assms(2,3) by (simp add: allInside_def)
  from assms(4) obtain g1 where 1: "setCell g0 (fst ?rc) (snd ?rc) 0 = Some g1"
    by (auto simp: carveStep_def st Let_def split: option.splits)
  have g1: "ringWalls w h g1"
    using setCell_inside_ring [OF _ rc 1] assms(1) by (simp add: st)
  show ?thesis
  proof (cases "i > 0")
    case False
    with assms(4) 1 g1 show ?thesis
      by (auto simp: carveStep_def st Let_def)
  next
    case True
    let ?wl = "wallBetween ?rc (wp ! (i - 1))"
    have "insideRing w h (fst (wp ! (i - 1))) (snd (wp ! (i - 1)))"
      using assms(2,3) by (simp add: allInside_def)
    with rc have wl: "insideRing w h (fst ?wl) (snd ?wl)"
      by (rule wallBetween_inside)
    from assms(4) 1 True obtain g2 where 2: "setCell g1 (fst ?wl) (snd ?wl) 0 = Some g2"
      and s: "st' = (g2, insert ?rc vis)"
      by (auto simp: carveStep_def st Let_def split: option.splits)
    from setCell_inside_ring [OF g1 wl 2] s show ?thesis by simp
  qed
qed

lemma wilsonBody_ring:
  assumes "ringWalls w h (fst st)" "wilsonBody w h st = Some st'" "1 \<le> w" "1 \<le> h"
  shows "ringWalls w h (fst st')"
proof -
  obtain g0 vis rnd where st: "st = (g0, vis, rnd)" by (cases st)
  from assms(2) obtain startWalk rnd1 wp pv cur rnd2 g1 vis1
    where p: "pickUnvisited w h vis rnd = Some (startWalk, rnd1)"
    and l: "whileM (\<lambda>(walkPath, pathVisited, cur, rnd). cur \<notin> vis) (walkBody w h)
              ([startWalk], {startWalk}, startWalk, rnd1) = Some (wp, pv, cur, rnd2)"
    and f: "foldM (carveStep wp) (g0, vis) [0..<length wp] = Some (g1, vis1)"
    and s: "st' = (g1, vis1, rnd2)"
    by (auto simp: wilsonBody_def st split: option.splits)
  have sw: "insideRing w h (fst startWalk) (snd startWalk)"
    using p assms(3,4) by (rule pickUnvisited_inside)
  let ?I = "\<lambda>s :: walk_state. allInside w h (fst s)"
  have "?I (wp, pv, cur, rnd2)
      \<and> \<not> (case (wp, pv, cur, rnd2) of (walkPath, pathVisited, cur, rnd) \<Rightarrow> cur \<notin> vis)"
  proof (rule whileM_invariant [OF l, where I = ?I])
    show "?I ([startWalk], {startWalk}, startWalk, rnd1)"
      using sw by (simp add: allInside_def)
  next
    fix s s' :: walk_state
    assume "?I s" "walkBody w h s = Some s'"
    then show "?I s'" by (rule walkBody_inside)
  qed
  then have wp: "allInside w h wp" by simp
  have "ringWalls w h (fst (g1, vis1))"
  proof (rule foldM_invariant [OF f, where I = "\<lambda>s. ringWalls w h (fst s)"])
    show "ringWalls w h (fst (g0, vis))" using assms(1) by (simp add: st)
  next
    fix i and s s' :: "grid \<times> coord set"
    assume "i \<in> set [0..<length wp]" "ringWalls w h (fst s)" "carveStep wp s i = Some s'"
    then show "ringWalls w h (fst s')"
      using carveStep_ring [OF _ wp, of s i s'] by simp
  qed
  with s show ?thesis by simp
qed

lemma wilsons_ring:
  assumes "generateWilsonsMaze rnd w h = Some g" "1 \<le> w" "1 \<le> h"
  shows "ringSpec w h g"
proof -
  obtain ig rnd1 where pc: "pickCell w h rnd = (ig, rnd1)" by (cases "pickCell w h rnd")
  from assms(1) obtain g1 st where s: "setCell (newGrid w h 1) (fst ig) (snd ig) 0 = Some g1"
    and l: "whileM (\<lambda>(g, visitedCells, rnd). card visitedCells < w * h) (wilsonBody w h)
              (g1, {ig}, rnd1) = Some st"
    and o: "openings w h (fst st) = Some g"
    by (auto simp: generateWilsonsMaze_def pc split: option.splits)
  have "insideRing w h (fst ig) (snd ig)"
    using pickCell_inside [OF assms(2,3), of rnd] by (simp add: pc)
  then have 1: "ringWalls w h g1"
    using setCell_inside_ring [OF ringWalls_newGrid _ s] by simp
  let ?I = "\<lambda>s :: wilson_state. ringWalls w h (fst s)"
  have "?I st \<and> \<not> (case st of (g, visitedCells, rnd) \<Rightarrow> card visitedCells < w * h)"
  proof (rule whileM_invariant [OF l, where I = ?I])
    show "?I (g1, {ig}, rnd1)" using 1 by simp
  next
    fix s s' :: wilson_state
    assume "?I s" "wilsonBody w h s = Some s'"
    then show "?I s'"
      using assms(2,3) by (intro wilsonBody_ring [of w h s s'])
  qed
  then show ?thesis
    using assms(2,3) o by (intro openings_ring [of w h "fst st"]) simp_all
qed

subsubsection \<open>Recursive backtracker\<close>

lemma enterCell_ring:
  assumes "ringWalls w h (fst st)" "insideRing w h r c" "enterCell st r c = Some st'"
  shows "ringWalls w h (fst st')"
proof -
  obtain g0 dirs rnd where st: "st = (g0, dirs, rnd)" by (cases st)
  from assms(3) obtain g1 where "setCell g0 r c 0 = Some g1" "fst st' = g1"
    by (auto simp: enterCell_def st split: option.splits)
  with setCell_inside_ring [OF _ assms(2), of g0 0 g1] assms(1) show ?thesis
    by (simp add: st)
qed

lemma carveFrom_ring:
  assumes "carveFrom w h st r c i = Some st'"
  shows "ringWalls w h (fst st) \<longrightarrow> insideRing w h r c \<longrightarrow> ringWalls w h (fst st')"
proof (induct rule: carveFrom.raw_induct [OF _ assms])
  case (1 carveFrom w h st r c i st')
  obtain g0 dirs rnd where st: "st = (g0, dirs, rnd)" by (cases st)
  let ?dr = "fst (dirs ! i)" and ?dc = "snd (dirs ! i)"
  show ?case
  proof (intro impI)
    assume g: "ringWalls w h (fst st)" and rc: "insideRing w h r c"
    show "ringWalls w h (fst st')"
    proof (cases "i \<ge> length dirs")
      case True
      with 1(2) g show ?thesis by (simp add: st)
    next
      case False
      show ?thesis
      proof (cases "isCell w h (r + ?dr) (c + ?dc) \<and> cell g0 (r + ?dr) (c + ?dc) = Some 1")
        case skip: False
        with 1(2) False have "carveFrom w h st r c (i + 1) = Some st'"
          by (auto simp: st Let_def)
        from 1(1) [OF this] g rc show ?thesis by simp
      next
        case True
        then have n: "insideRing w h (r + ?dr) (c + ?dc)"
          by (simp add: isCell_inside)
        have wl: "insideRing w h (r + ?dr div 2) (c + ?dc div 2)"
          using rc n by (rule half_step_inside)
        from 1(2) False True obtain g1 st1 st2
          where a: "setCell g0 (r + ?dr div 2) (c + ?dc div 2) 0 = Some g1"
          and b: "enterCell (g1, dirs, rnd) (r + ?dr) (c + ?dc) = Some st1"
          and c: "carveFrom w h st1 (r + ?dr) (c + ?dc) 0 = Some st2"
          and d: "carveFrom w h st2 r c (i + 1) = Some st'"
          by (auto simp: st Let_def bind_eq_Some_conv split: option.splits)
        have "ringWalls w h g1"
          using setCell_inside_ring [OF _ wl a] g by (simp add: st)
        then have "ringWalls w h (fst st1)"
          using enterCell_ring [OF _ n b] by simp
        with 1(1) [OF c] n have "ringWalls w h (fst st2)" by simp
        with 1(1) [OF d] rc show ?thesis by simp
      qed
    qed
  qed
qed

lemma backtracker_ring:
  assumes "generateRecursiveBacktrackerMaze rnd w h = Some g" "1 \<le> w" "1 \<le> h"
  shows "ringSpec w h g"
proof -
  let ?r = "int (randomIndex rnd h) * 2 + 1" and ?c = "int (randomIndex (rest rnd) w) * 2 + 1"
  let ?st0 = "(newGrid w h 1, directions2, rest (rest rnd))"
  from assms(1) obtain st1 st where e: "enterCell ?st0 ?r ?c = Some st1"
    and c: "carveFrom w h st1 ?r ?c 0 = Some st"
    and o: "openings w h (fst st) = Some g"
    by (auto simp: generateRecursiveBacktrackerMaze_def carvePath_def Let_def
        split: option.splits)
  have i: "insideRing w h ?r ?c"
    using assms(2,3) by (rule start_inside)
  have "ringWalls w h (fst st1)"
    using enterCell_ring [OF _ i e] by (simp add: ringWalls_newGrid)
  with carveFrom_ring [OF c] i have "ringWalls w h (fst st)" by simp
  then show ?thesis
    using assms(2,3) o by (rule openings_ring)
qed

subsubsection \<open>Recursive division\<close>

lemma wallLine_ring:
  assumes "ringWalls w h g"
    and "foldM (\<lambda>m x. if x \<noteq> p then setCell m (a x) (b x) 1 else Some m) g xs = Some g'"
  shows "ringWalls w h g'"
proof (rule foldM_invariant [OF assms(2), where I = "ringWalls w h"])
  show "ringWalls w h g" by (rule assms(1))
next
  fix x s s'
  assume "ringWalls w h s" "(if x \<noteq> p then setCell s (a x) (b x) 1 else Some s) = Some s'"
  then show "ringWalls w h s'"
    by (auto split: if_splits intro: setCell_wall_ring)
qed

lemma divide_ring:
  assumes "divide st r1 c1 r2 c2 = Some st'"
  shows "ringWalls w h (fst st) \<longrightarrow> ringWalls w h (fst st')"
proof (induct rule: divide.raw_induct [OF _ assms])
  case (1 divide st r1 c1 r2 c2 st')
  show ?case
  proof (intro impI)
    assume g: "ringWalls w h (fst st)"
    show "ringWalls w h (fst st')"
    proof (cases "r2 - r1 < 4 \<or> c2 - c1 < 4")
      case True
      with 1(2) g show ?thesis by auto
    next
      case False
      obtain dh rnd1 where ch: "chooseHorizontal (snd st) r1 c1 r2 c2 = (dh, rnd1)"
        by (cases "chooseHorizontal (snd st) r1 c1 r2 c2")
      show ?thesis
      proof (cases dh)
        case True
        with 1(2) False ch obtain p wr m st1
          where f: "foldM (\<lambda>m c. if c \<noteq> p then setCell m wr c 1 else Some m) (fst st) [c1..c2]
                      = Some m"
          and a: "divide (m, rest (rest rnd1)) r1 c1 (wr - 1) c2 = Some st1"
          and b: "divide st1 (wr + 1) c1 r2 c2 = Some st'"
          by (auto simp: Let_def bind_eq_Some_conv split: option.splits)
        have "ringWalls w h m"
          using wallLine_ring [OF g, of p "\<lambda>c. wr" "\<lambda>c. c" "[c1..c2]" m] f by simp
        with 1(1) [OF a] have "ringWalls w h (fst st1)" by simp
        with 1(1) [OF b] show ?thesis by simp
      next
        case dv: False
        with 1(2) False ch obtain p wc m st1
          where f: "foldM (\<lambda>m r. if r \<noteq> p then setCell m r wc 1 else Some m) (fst st) [r1..r2]
                      = Some m"
          and a: "divide (m, rest (rest rnd1)) r1 c1 r2 (wc - 1) = Some st1"
          and b: "divide st1 r1 (wc + 1) r2 c2 = Some st'"
          by (auto simp: Let_def bind_eq_Some_conv split: option.splits)
        have "ringWalls w h m"
          using wallLine_ring [OF g, of p "\<lambda>r. r" "\<lambda>r. wc" "[r1..r2]" m] f by simp
        with 1(1) [OF a] have "ringWalls w h (fst st1)" by simp
        with 1(1) [OF b] show ?thesis by simp
      qed
    qed
  qed
qed

lemma foldM_prefix_aux:
  assumes "\<And>pre x s s'. I pre s \<Longrightarrow> f s x = Some s' \<Longrightarrow> I (pre @ [x]) s'"
  shows "I pre s \<Longrightarrow> foldM f s xs = Some s' \<Longrightarrow> I (pre @ xs) s'"
proof (induction xs arbitrary: pre s)
  case Nil
  then show ?case by simp
next
  case (Cons x xs)
  from Cons.prems(2) obtain s1 where 1: "f s x = Some s1" and 2: "foldM f s1 xs = Some s'"
    by (auto split: option.splits)
  have "I (pre @ [x]) s1" using assms [OF Cons.prems(1) 1] .
  from Cons.IH [OF this 2] show ?case by simp
qed

lemma foldM_prefix:
  assumes "foldM f s xs = Some s'" "I [] s"
    and "\<And>pre x s s'. I pre s \<Longrightarrow> f s x = Some s' \<Longrightarrow> I (pre @ [x]) s'"
  shows "I xs s'"
  using foldM_prefix_aux [of I f "[]" s xs s', OF assms(3) assms(2) assms(1)] by simp

definition dimsOK :: "nat \<Rightarrow> nat \<Rightarrow> grid \<Rightarrow> bool" where
  "dimsOK w h g = (length g = gridHeight h \<and> (\<forall>row \<in> set g. length row = gridWidth w))"

text \<open>Two writes of a wall, as in each of the two loops that build the outer walls.\<close>

lemma two_walls:
  assumes "(case setCell m r1 c1 1 of None \<Rightarrow> None | Some m1 \<Rightarrow> setCell m1 r2 c2 1) = Some m'"
  shows "dimsOK w h m \<Longrightarrow> dimsOK w h m'"
    and "cell m r c = Some 1 \<Longrightarrow> cell m' r c = Some 1"
    and "cell m' r1 c1 = Some 1" and "cell m' r2 c2 = Some 1"
proof -
  from assms obtain m1 where 1: "setCell m r1 c1 1 = Some m1" and 2: "setCell m1 r2 c2 1 = Some m'"
    by (auto split: option.splits)
  show "dimsOK w h m'" if d: "dimsOK w h m"
  proof -
    from d have "length m1 = gridHeight h" "\<forall>row \<in> set m1. length row = gridWidth w"
      using setCell_dims(1) [OF 1] setCell_dims(2) [OF 1, of "gridWidth w"]
      by (simp_all add: dimsOK_def)
    then show ?thesis
      using setCell_dims(1) [OF 2] setCell_dims(2) [OF 2, of "gridWidth w"]
      by (simp add: dimsOK_def)
  qed
  have c1: "cell m1 r' c' = (if r' = r1 \<and> c' = c1 then Some 1 else cell m r' c')" for r' c'
    by (rule cell_setCell [OF 1])
  have c2: "cell m' r' c' = (if r' = r2 \<and> c' = c2 then Some 1 else cell m1 r' c')" for r' c'
    by (rule cell_setCell [OF 2])
  show "cell m r c = Some 1 \<Longrightarrow> cell m' r c = Some 1"
    by (simp add: c1 c2)
  show "cell m' r1 c1 = Some 1" "cell m' r2 c2 = Some 1"
    by (simp_all add: c1 c2)
qed

lemma addOuterWalls_ring:
  assumes "addOuterWalls w h (newGrid w h 0) = Some g"
  shows "ringWalls w h g"
proof -
  let ?H = "int (gridHeight h)" and ?W = "int (gridWidth w)"
  let ?rows = "map int [0..<gridHeight h]" and ?cols = "map int [0..<gridWidth w]"
  let ?f1 = "\<lambda>m r. case setCell m r 0 1 of None \<Rightarrow> None | Some m1 \<Rightarrow> setCell m1 r (?W - 1) 1"
  let ?f2 = "\<lambda>m c. case setCell m 0 c 1 of None \<Rightarrow> None | Some m1 \<Rightarrow> setCell m1 (?H - 1) c 1"
  let ?I1 = "\<lambda>pre m. dimsOK w h m
      \<and> (\<forall>r \<in> set pre. cell m r 0 = Some 1 \<and> cell m r (?W - 1) = Some 1)"
  let ?I2 = "\<lambda>pre m. ?I1 ?rows m
      \<and> (\<forall>c \<in> set pre. cell m 0 c = Some 1 \<and> cell m (?H - 1) c = Some 1)"
  from assms obtain g1 where f1: "foldM ?f1 (newGrid w h 0) ?rows = Some g1"
    and f2: "foldM ?f2 g1 ?cols = Some g"
    by (auto simp: addOuterWalls_def split: option.splits)
  have 1: "?I1 ?rows g1"
  proof (rule foldM_prefix [OF f1, where I = ?I1])
    show "?I1 [] (newGrid w h 0)"
      by (simp add: dimsOK_def newGrid_def)
  next
    fix pre x s s'
    assume i: "?I1 pre s" and s: "?f1 s x = Some s'"
    show "?I1 (pre @ [x]) s'"
      using i two_walls [OF s] by auto
  qed
  have 2: "?I2 ?cols g"
  proof (rule foldM_prefix [OF f2, where I = ?I2])
    show "?I2 [] g1"
      using 1 by simp
  next
    fix pre x s s'
    assume i: "?I2 pre s" and s: "?f2 s x = Some s'"
    show "?I2 (pre @ [x]) s'"
      using i two_walls [OF s] by auto
  qed
  have rows: "r \<in> set ?rows" if "0 \<le> r" "r < ?H" for r
    using that by (auto simp: image_iff intro!: bexI [of _ "nat r"])
  have cols: "c \<in> set ?cols" if "0 \<le> c" "c < ?W" for c
    using that by (auto simp: image_iff intro!: bexI [of _ "nat c"])
  have "cell g r c = Some 1" if "onRing w h r c" for r c
  proof -
    from that have b: "0 \<le> r" "r < ?H" "0 \<le> c" "c < ?W"
      and e: "r = 0 \<or> r = ?H - 1 \<or> c = 0 \<or> c = ?W - 1"
      by (auto simp: onRing_def)
    from e show ?thesis
      using 2 rows [OF b(1,2)] cols [OF b(3,4)] by (elim disjE) blast+
  qed
  with 2 show ?thesis
    by (simp add: ringWalls_def dimsOK_def)
qed

lemma division_ring:
  assumes "generateRecursiveDivisionMaze rnd w h = Some g" "1 \<le> w" "1 \<le> h"
  shows "ringSpec w h g"
proof -
  from assms(1) obtain g1 st where a: "addOuterWalls w h (newGrid w h 0) = Some g1"
    and d: "divide (g1, rnd) 1 1 (int (gridHeight h) - 2) (int (gridWidth w) - 2) = Some st"
    and o: "openings w h (fst st) = Some g"
    by (auto simp: generateRecursiveDivisionMaze_def split: option.splits)
  have "ringWalls w h g1"
    using a by (rule addOuterWalls_ring)
  with divide_ring [OF d, of w h] have "ringWalls w h (fst st)" by simp
  then show ?thesis
    using assms(2,3) o by (rule openings_ring)
qed

subsection \<open>Which generators always return a grid\<close>

text \<open>
  Six generators return a grid for every width and height of at least 1 and every outcome
  of the random choices: every write stays inside the array, and every loop and recursion
  ends. Each pass of a \<open>while\<close> loop or each call lowers a pair in the lexicographic order
  \<open>progress_rel\<close>: the number of positions not yet carved (or cells not yet visited), then
  the length of the work list.
\<close>

lemma foldM_total:
  assumes "I s" and "\<And>x s. x \<in> set xs \<Longrightarrow> I s \<Longrightarrow> \<exists>s'. f s x = Some s' \<and> I s'"
  shows "\<exists>s'. foldM f s xs = Some s' \<and> I s'"
  using assms
proof (induction xs arbitrary: s)
  case Nil
  then show ?case by simp
next
  case (Cons x xs)
  from Cons.prems(2) [of x s] Cons.prems(1) obtain s1 where 1: "f s x = Some s1" "I s1"
    by auto
  have "\<exists>s'. foldM f s1 xs = Some s' \<and> I s'"
    by (rule Cons.IH [OF 1(2)]) (use Cons.prems(2) in auto)
  with 1 show ?case by simp
qed

lemma whileM_total:
  assumes "wf R" "I s"
    and step: "\<And>s. I s \<Longrightarrow> b s \<Longrightarrow> \<exists>s'. body s = Some s' \<and> I s' \<and> (s', s) \<in> R"
  shows "\<exists>t. whileM b body s = Some t \<and> I t \<and> \<not> b t"
  using assms(1,2)
proof (induction s rule: wf_induct_rule)
  case (less s)
  show ?case
  proof (cases "b s")
    case False
    have "whileM b body s = Some s"
      using False by (subst whileM.simps) simp
    with False less.prems show ?thesis by simp
  next
    case True
    from step [OF less.prems True] obtain s' where s': "body s = Some s'" "I s'" "(s', s) \<in> R"
      by auto
    from less.IH [OF s'(3) s'(2)] obtain t where t: "whileM b body s' = Some t" "I t" "\<not> b t"
      by auto
    have "whileM b body s = Some t"
      using True s'(1) t(1) by (subst whileM.simps) simp
    with t show ?thesis by simp
  qed
qed

lemma setCell_inRange:
  assumes "length g = H" "\<forall>row \<in> set g. length row = W"
    and "0 \<le> r" "r < int H" "0 \<le> c" "c < int W"
  shows "\<exists>g'. setCell g r c v = Some g' \<and> length g' = H \<and> (\<forall>row \<in> set g'. length row = W)"
proof -
  have "nat r < length g" using assms by simp
  then have "g ! nat r \<in> set g" by simp
  then have "length (g ! nat r) = W" using assms(2) by simp
  then have e: "setCell g r c v = Some (g[nat r := (g ! nat r)[nat c := v]])"
    using assms by (simp add: setCell_def)
  from setCell_dims(1) [OF e] setCell_dims(2) [OF e, of W] assms(1,2) e
  show ?thesis by simp
qed

lemma openings_total:
  assumes "ringWalls w h g" "1 \<le> w" "1 \<le> h"
  shows "\<exists>g'. openings w h g = Some g'"
proof -
  have len: "length g = gridHeight h" and rows: "\<forall>row \<in> set g. length row = gridWidth w"
    using assms(1) by (simp_all add: ringWalls_def)
  from setCell_inRange [OF len rows, of 1 0 0] obtain g1 where 1: "setCell g 1 0 0 = Some g1"
    and len1: "length g1 = gridHeight h" and rows1: "\<forall>row \<in> set g1. length row = gridWidth w"
    using assms(3) by (auto simp: gridHeight_def gridWidth_def)
  from setCell_inRange [OF len1 rows1, of "int (gridHeight h) - 2" "int (gridWidth w) - 1" 0]
  have "\<exists>g'. setCell g1 (int (gridHeight h) - 2) (int (gridWidth w) - 1) 0 = Some g'"
    using assms(3) by (auto simp: gridHeight_def gridWidth_def)
  with 1 show ?thesis by (simp add: openings_def)
qed

subsubsection \<open>Binary tree\<close>

lemma binaryTreeCell_total:
  assumes g: "ringWalls w h (fst st)" and i: "insideRing w h (fst rc) (snd rc)"
  shows "\<exists>st'. binaryTreeCell st rc = Some st' \<and> ringWalls w h (fst st')"
proof -
  obtain g0 rnd where st: "st = (g0, rnd)" by (cases st)
  obtain r c where rc: "rc = (r, c)" by (cases rc)
  from setCell_inside [of w h g0 r c 0] g i obtain g1
    where 1: "setCell g0 r c 0 = Some g1" and g1: "ringWalls w h g1"
    by (auto simp: st rc)
  have up: "\<exists>m. setCell g1 (r - 1) c 0 = Some m \<and> ringWalls w h m" if "r > 1"
    using setCell_inside [OF g1 insideRing_up, of r c 0] i that by (simp add: rc)
  have left: "\<exists>m. setCell g1 r (c - 1) 0 = Some m \<and> ringWalls w h m" if "c > 1"
    using setCell_inside [OF g1 insideRing_left, of r c 0] i that by (simp add: rc)
  show ?thesis
    using 1 g1 up left by (auto simp: binaryTreeCell_def st rc Let_def)
qed

lemma binaryTree_total:
  assumes "1 \<le> w" "1 \<le> h"
  shows "\<exists>g. generateBinaryTreeMaze rnd w h = Some g"
proof -
  have "\<exists>st. foldM binaryTreeCell (newGrid w h 1, rnd) (cellPositions w h) = Some st
      \<and> ringWalls w h (fst st)"
  proof (rule foldM_total [where I = "\<lambda>s. ringWalls w h (fst s)"])
    show "ringWalls w h (fst (newGrid w h 1, rnd))"
      by (simp add: ringWalls_newGrid)
  next
    fix x :: coord and s :: "grid \<times> rand"
    assume "x \<in> set (cellPositions w h)" "ringWalls w h (fst s)"
    then show "\<exists>s'. binaryTreeCell s x = Some s' \<and> ringWalls w h (fst s')"
      by (intro binaryTreeCell_total cellPositions_inside)
  qed
  then obtain st where st: "foldM binaryTreeCell (newGrid w h 1, rnd) (cellPositions w h) = Some st"
    "ringWalls w h (fst st)" by auto
  from openings_total [OF st(2) assms] st(1) show ?thesis
    by (auto simp: generateBinaryTreeMaze_def)
qed

definition gridArea :: "nat \<Rightarrow> nat \<Rightarrow> coord set" where
  "gridArea w h = {0..<int (gridHeight h)} \<times> {0..<int (gridWidth w)}"

definition pathCells :: "grid \<Rightarrow> coord set" where
  "pathCells g = {p. cell g (fst p) (snd p) = Some 0}"

lemma finite_gridArea [simp]: "finite (gridArea w h)"
  by (simp add: gridArea_def)

lemma insideRing_area: "insideRing w h r c \<Longrightarrow> (r, c) \<in> gridArea w h"
  by (auto simp: insideRing_def gridArea_def)

lemma pathCells_setCell:
  "setCell g r c 0 = Some g' \<Longrightarrow> pathCells g' = insert (r, c) (pathCells g)"
  by (auto simp: pathCells_def cell_setCell split: if_splits)

subsubsection \<open>Prim\<close>

definition primMeasure :: "nat \<Rightarrow> nat \<Rightarrow> prim_state \<Rightarrow> nat \<times> nat" where
  "primMeasure w h st = progress (gridArea w h) (pathCells (fst st)) (length (fst (snd st)))"

lemma primBody_total:
  assumes g: "ringWalls w h (fst st)" and ws: "wallsInside w h (fst (snd st))"
    and ne: "fst (snd st) \<noteq> []"
  shows "\<exists>st'. primBody w h st = Some st'
      \<and> (primMeasure w h st', primMeasure w h st) \<in> progress_rel"
proof -
  obtain g0 walls rnd where st: "st = (g0, walls, rnd)" by (cases st)
  let ?k = "randomIndex rnd (length walls)"
  let ?wl = "walls ! ?k"
  let ?walls1 = "take ?k walls @ drop (Suc ?k) walls"
  let ?found = "filter (\<lambda>p. isCell w h (fst p) (snd p)) (map (move ?wl) directions4)"
  have g0: "ringWalls w h g0" and walls: "walls \<noteq> []"
    using g ne by (simp_all add: st)
  have k: "?k < length walls"
    using walls by (simp add: randomIndex_less)
  have wl: "insideRing w h (fst ?wl) (snd ?wl)"
    using ws walls nth_randomIndex_mem [of walls rnd] by (simp add: st wallsInside_def)
  have len1: "length ?walls1 < length walls"
    using k by simp
  have skip: "(primMeasure w h (g0, ?walls1, rest rnd), primMeasure w h st) \<in> progress_rel"
    unfolding primMeasure_def st using len1 by (intro progress_shrink) simp_all
  have carve: "\<exists>g1 g2. setCell g0 (fst ?wl) (snd ?wl) 0 = Some g1
        \<and> setCell g1 (fst p) (snd p) 0 = Some g2
        \<and> (\<forall>ws' rnd'. (primMeasure w h (g2, ws', rnd'), primMeasure w h st) \<in> progress_rel)"
    if p: "isCell w h (fst p) (snd p)" "cell g0 (fst p) (snd p) = Some 1" for p
  proof -
    from setCell_inside [OF g0 wl, where v = 0] obtain g1
      where 1: "setCell g0 (fst ?wl) (snd ?wl) 0 = Some g1" and g1: "ringWalls w h g1" by auto
    have pin: "insideRing w h (fst p) (snd p)" using p(1) by (rule isCell_inside)
    from setCell_inside [OF g1 pin, where v = 0] obtain g2
      where 2: "setCell g1 (fst p) (snd p) 0 = Some g2" by auto
    have "p \<in> gridArea w h" using insideRing_area [OF pin] by simp
    moreover have "p \<notin> pathCells g0" using p(2) by (simp add: pathCells_def)
    moreover have "insert p (pathCells g0) \<subseteq> pathCells g2"
      using pathCells_setCell [OF 1] pathCells_setCell [OF 2] by auto
    ultimately have "(primMeasure w h (g2, ws', rnd'), primMeasure w h st) \<in> progress_rel"
      for ws' rnd'
      unfolding primMeasure_def st by (intro progress_insert [where n = p]) simp_all
    with 1 2 show ?thesis by blast
  qed
  show ?thesis
  proof (cases ?found)
    case Nil
    then have "primBody w h st = Some (g0, ?walls1, rest rnd)"
      by (simp add: primBody_def st Let_def)
    with skip show ?thesis by simp
  next
    case (Cons cell1 rest1)
    note c1 = Cons
    show ?thesis
    proof (cases rest1)
      case Nil
      with c1 have "primBody w h st = Some (g0, ?walls1, rest rnd)"
        by (simp add: primBody_def st Let_def)
      with skip show ?thesis by simp
    next
      case (Cons cell2 rest2)
      have "cell1 \<in> set ?found" "cell2 \<in> set ?found"
        unfolding c1 Cons by simp_all
      then have ic: "isCell w h (fst cell1) (snd cell1)" "isCell w h (fst cell2) (snd cell2)"
        by simp_all
      define A where "A \<longleftrightarrow> cell g0 (fst cell1) (snd cell1) = Some 0
          \<and> cell g0 (fst cell2) (snd cell2) = Some 1"
      define B where "B \<longleftrightarrow> cell g0 (fst cell1) (snd cell1) = Some 1
          \<and> cell g0 (fst cell2) (snd cell2) = Some 0"
      have body: "primBody w h st =
          (if A then (case setCell g0 (fst ?wl) (snd ?wl) 0 of
                        None \<Rightarrow> None
                      | Some g1 \<Rightarrow>
                          (case setCell g1 (fst cell2) (snd cell2) 0 of
                             None \<Rightarrow> None
                           | Some g2 \<Rightarrow> Some (g2, addWalls w h True g2 cell2 ?walls1, rest rnd)))
           else if B then (case setCell g0 (fst ?wl) (snd ?wl) 0 of
                        None \<Rightarrow> None
                      | Some g1 \<Rightarrow>
                          (case setCell g1 (fst cell1) (snd cell1) 0 of
                             None \<Rightarrow> None
                           | Some g2 \<Rightarrow> Some (g2, addWalls w h True g2 cell1 ?walls1, rest rnd)))
           else Some (g0, ?walls1, rest rnd))"
        unfolding A_def B_def using c1 Cons by (simp add: primBody_def st Let_def)
      consider (a) A | (b) "\<not> A" B | (c) "\<not> A" "\<not> B"
        by blast
      then show ?thesis
      proof cases
        case a
        then have "cell g0 (fst cell2) (snd cell2) = Some 1" by (simp add: A_def)
        from carve [OF ic(2) this] obtain g1 g2
          where "setCell g0 (fst ?wl) (snd ?wl) 0 = Some g1"
            "setCell g1 (fst cell2) (snd cell2) 0 = Some g2"
            "(primMeasure w h (g2, addWalls w h True g2 cell2 ?walls1, rest rnd),
              primMeasure w h st) \<in> progress_rel"
          by blast
        with a show ?thesis
          by (simp add: body)
      next
        case b
        then have "cell g0 (fst cell1) (snd cell1) = Some 1" by (simp add: B_def)
        from carve [OF ic(1) this] obtain g1 g2
          where "setCell g0 (fst ?wl) (snd ?wl) 0 = Some g1"
            "setCell g1 (fst cell1) (snd cell1) 0 = Some g2"
            "(primMeasure w h (g2, addWalls w h True g2 cell1 ?walls1, rest rnd),
              primMeasure w h st) \<in> progress_rel"
          by blast
        with b show ?thesis
          by (simp add: body)
      next
        case c
        with skip show ?thesis
          by (simp add: body)
      qed
    qed
  qed
qed

lemma prims_total:
  assumes "1 \<le> w" "1 \<le> h"
  shows "\<exists>g. generatePrimsMaze rnd w h = Some g"
proof -
  let ?r = "int (randomIndex rnd h) * 2 + 1" and ?c = "int (randomIndex (rest rnd) w) * 2 + 1"
  let ?I = "\<lambda>s :: prim_state. ringWalls w h (fst s) \<and> wallsInside w h (fst (snd s))"
  from setCell_inside [OF ringWalls_newGrid start_inside [OF assms], where v = 0] obtain g1
    where s: "setCell (newGrid w h 1) ?r ?c 0 = Some g1" and 1: "ringWalls w h g1"
    by blast
  have 2: "wallsInside w h (addWalls w h False g1 (?r, ?c) [])"
    by (rule addWalls_inside) (simp add: wallsInside_def)
  have "\<exists>t. whileM (\<lambda>(g, walls, rnd). length walls > 0) (primBody w h)
            (g1, addWalls w h False g1 (?r, ?c) [], rest (rest rnd)) = Some t
        \<and> ?I t \<and> \<not> (case t of (g, walls, rnd) \<Rightarrow> length walls > 0)"
  proof (rule whileM_total [where R = "inv_image progress_rel (primMeasure w h)" and I = ?I])
    show "wf (inv_image progress_rel (primMeasure w h))" by simp
    show "?I (g1, addWalls w h False g1 (?r, ?c) [], rest (rest rnd))"
      using 1 2 by simp
  next
    fix s :: prim_state
    assume i: "?I s" and b: "case s of (g, walls, rnd) \<Rightarrow> length walls > 0"
    then have ne: "fst (snd s) \<noteq> []" by (auto split: prod.splits)
    from primBody_total [of w h s] i ne obtain s' where s': "primBody w h s = Some s'"
      "(primMeasure w h s', primMeasure w h s) \<in> progress_rel" by blast
    from primBody_ring [of w h s s'] i ne s'(1) have "?I s'" by blast
    with s' show "\<exists>s'. primBody w h s = Some s' \<and> ?I s'
        \<and> (s', s) \<in> inv_image progress_rel (primMeasure w h)"
      by auto
  qed
  then obtain t where t: "whileM (\<lambda>(g, walls, rnd). length walls > 0) (primBody w h)
            (g1, addWalls w h False g1 (?r, ?c) [], rest (rest rnd)) = Some t"
    "ringWalls w h (fst t)" by blast
  from openings_total [OF t(2) assms] s t(1) show ?thesis
    by (auto simp: generatePrimsMaze_def Let_def)
qed

subsubsection \<open>Growing tree\<close>

definition growingTreeMeasure :: "nat \<Rightarrow> nat \<Rightarrow> gt_state \<Rightarrow> nat \<times> nat" where
  "growingTreeMeasure w h st =
     progress ({0..<int h} \<times> {0..<int w}) (fst (snd (snd st))) (length (fst (snd st)))"

lemma isCellCoord_area: "isCellCoord w h p \<Longrightarrow> p \<in> {0..<int h} \<times> {0..<int w}"
  by (cases p) (auto simp: isCellCoord_def)

lemma growingTreeBody_total:
  assumes g: "ringWalls w h (fst st)" and a: "\<forall>p \<in> set (fst (snd st)). isCellCoord w h p"
    and ne: "fst (snd st) \<noteq> []"
  shows "\<exists>st'. growingTreeBody w h method st = Some st'
      \<and> (growingTreeMeasure w h st', growingTreeMeasure w h st) \<in> progress_rel"
proof -
  obtain g0 act vis rnd where st: "st = (g0, act, vis, rnd)" by (cases st)
  obtain cellIndex rnd1 where pick: "(case method of
        Newest \<Rightarrow> (length act - 1, rnd)
      | Oldest \<Rightarrow> (0, rnd)
      | Random \<Rightarrow> (randomIndex rnd (length act), rest rnd)) = (cellIndex, rnd1)"
    by (cases "(case method of
        Newest \<Rightarrow> (length act - 1, rnd)
      | Oldest \<Rightarrow> (0, rnd)
      | Random \<Rightarrow> (randomIndex rnd (length act), rest rnd))")
  have act: "act \<noteq> []" using ne by (simp add: st)
  then have "length act > 0" by simp
  then have idx: "cellIndex < length act"
    using pick randomIndex_less [of "length act" rnd] by (cases "method") auto
  let ?cur = "act ! cellIndex"
  let ?un = "filter (\<lambda>n. isCellCoord w h n \<and> n \<notin> vis) (map (move ?cur) directions4)"
  let ?nc = "?un ! randomIndex rnd1 (length ?un)"
  let ?wl = "wallBetween (cellToGrid ?cur) (cellToGrid ?nc)"
  have g0: "ringWalls w h g0" using g by (simp add: st)
  have cur: "isCellCoord w h ?cur" using a idx by (simp add: st)
  show ?thesis
  proof (cases "?un = []")
    case True
    with pick have b: "growingTreeBody w h method st
        = Some (g0, take cellIndex act @ drop (Suc cellIndex) act, vis, rnd1)"
      by (simp add: growingTreeBody_def st Let_def)
    have "length (take cellIndex act @ drop (Suc cellIndex) act) < length act"
      using idx by simp
    then have "(growingTreeMeasure w h (g0, take cellIndex act @ drop (Suc cellIndex) act, vis, rnd1),
        growingTreeMeasure w h st) \<in> progress_rel"
      unfolding growingTreeMeasure_def st by (intro progress_shrink) simp_all
    with b show ?thesis by simp
  next
    case False
    then have "?nc \<in> set ?un" by (rule nth_randomIndex_mem)
    then have nc: "isCellCoord w h ?nc" "?nc \<notin> vis" by simp_all
    have wl: "insideRing w h (fst ?wl) (snd ?wl)"
      using cur nc(1) by (intro wallBetween_inside cellToGrid_inside)
    from setCell_inside [OF g0 wl, where v = 0] obtain g1
      where 1: "setCell g0 (fst ?wl) (snd ?wl) 0 = Some g1" and g1: "ringWalls w h g1" by auto
    from setCell_inside [OF g1 cellToGrid_inside [OF nc(1)], where v = 0] obtain g2
      where 2: "setCell g1 (fst (cellToGrid ?nc)) (snd (cellToGrid ?nc)) 0 = Some g2" by auto
    from pick False 1 2 have b: "growingTreeBody w h method st
        = Some (g2, act @ [?nc], insert ?nc vis, rest rnd1)"
      by (simp add: growingTreeBody_def st Let_def)
    have "(growingTreeMeasure w h (g2, act @ [?nc], insert ?nc vis, rest rnd1),
        growingTreeMeasure w h st) \<in> progress_rel"
      unfolding growingTreeMeasure_def st
      using nc isCellCoord_area [OF nc(1)] by (intro progress_insert [where n = ?nc]) simp_all
    with b show ?thesis by simp
  qed
qed

lemma growingTree_total:
  assumes "1 \<le> w" "1 \<le> h"
  shows "\<exists>g. generateGrowingTreeMaze rnd w h method = Some g"
proof -
  let ?cc = "(int (randomIndex rnd h), int (randomIndex (rest rnd) w))"
  let ?I = "\<lambda>s :: gt_state. ringWalls w h (fst s) \<and> (\<forall>p \<in> set (fst (snd s)). isCellCoord w h p)"
  have cc: "isCellCoord w h ?cc"
    using assms by (rule randomCell_isCellCoord)
  from setCell_inside [OF ringWalls_newGrid cellToGrid_inside [OF cc], where v = 0] obtain g1
    where s: "setCell (newGrid w h 1) (fst (cellToGrid ?cc)) (snd (cellToGrid ?cc)) 0 = Some g1"
      and 1: "ringWalls w h g1"
    by blast
  have "\<exists>t. whileM (\<lambda>(g, activeCells, visitedCells, rnd). length activeCells > 0)
            (growingTreeBody w h method) (g1, [?cc], {?cc}, rest (rest rnd)) = Some t
        \<and> ?I t \<and> \<not> (case t of (g, activeCells, visitedCells, rnd) \<Rightarrow> length activeCells > 0)"
  proof (rule whileM_total [where R = "inv_image progress_rel (growingTreeMeasure w h)" and I = ?I])
    show "wf (inv_image progress_rel (growingTreeMeasure w h))" by simp
    show "?I (g1, [?cc], {?cc}, rest (rest rnd))"
      using 1 cc by simp
  next
    fix s :: gt_state
    assume i: "?I s" and b: "case s of (g, activeCells, visitedCells, rnd) \<Rightarrow> length activeCells > 0"
    then have ne: "fst (snd s) \<noteq> []" by (auto split: prod.splits)
    from growingTreeBody_total [of w h s "method"] i ne obtain s'
      where s': "growingTreeBody w h method s = Some s'"
        "(growingTreeMeasure w h s', growingTreeMeasure w h s) \<in> progress_rel" by blast
    from growingTreeBody_ring [of w h s "method" "s'"] i ne s'(1) have "?I s'" by blast
    with s' show "\<exists>s'. growingTreeBody w h method s = Some s' \<and> ?I s'
        \<and> (s', s) \<in> inv_image progress_rel (growingTreeMeasure w h)"
      by auto
  qed
  then obtain t where t: "whileM (\<lambda>(g, activeCells, visitedCells, rnd). length activeCells > 0)
            (growingTreeBody w h method) (g1, [?cc], {?cc}, rest (rest rnd)) = Some t"
    "ringWalls w h (fst t)" by blast
  from openings_total [OF t(2) assms] s t(1) show ?thesis
    by (auto simp: generateGrowingTreeMaze_def Let_def)
qed

subsubsection \<open>Kruskal\<close>

definition ufInv :: "nat \<Rightarrow> nat list \<Rightarrow> nat list \<Rightarrow> bool" where
  "ufInv n parent rank \<longleftrightarrow>
     length parent = n \<and> length rank = n
     \<and> (\<forall>i < n. parent ! i < n \<and> (parent ! i \<noteq> i \<longrightarrow> rank ! i < rank ! (parent ! i)))"

lemma findSetByIndex_total:
  assumes "ufInv n parent rank" "i < n"
  shows "\<exists>root parent'. findSetByIndex parent i = Some (root, parent')
      \<and> ufInv n parent' rank \<and> root < n \<and> parent' ! root = root
      \<and> rank ! i \<le> rank ! root
      \<and> (\<forall>k < n. parent ! k = k \<longrightarrow> parent' ! k = k)"
  using assms(2)
proof (induction "Suc (Max (set rank)) - rank ! i" arbitrary: i rule: less_induct)
  case less
  note inv = assms(1)
  have len: "length parent = n" "length rank = n"
    using inv by (simp_all add: ufInv_def)
  have bound: "rank ! k \<le> Max (set rank)" if "k < n" for k
    using that len by (intro Max_ge) simp_all
  show ?case
  proof (cases "parent ! i = i")
    case True
    then have "findSetByIndex parent i = Some (i, parent)"
      using less.prems len by (subst findSetByIndex.simps) simp
    with True inv less.prems show ?thesis by simp
  next
    case False
    let ?j = "parent ! i"
    have j: "?j < n" "rank ! i < rank ! ?j"
      using inv less.prems False by (auto simp: ufInv_def)
    have "Suc (Max (set rank)) - rank ! ?j < Suc (Max (set rank)) - rank ! i"
      using j bound [OF j(1)] by simp
    from less.hyps [OF this j(1)] obtain root p'
      where f: "findSetByIndex parent ?j = Some (root, p')"
        and p': "ufInv n p' rank" and root: "root < n" "p' ! root = root"
        and rk: "rank ! ?j \<le> rank ! root"
        and keep: "\<forall>k < n. parent ! k = k \<longrightarrow> p' ! k = k"
      by blast
    have ne: "root \<noteq> i" using j(2) rk by auto
    have "findSetByIndex parent i = Some (root, p'[i := root])"
      using less.prems len False f by (subst findSetByIndex.simps) simp
    moreover have "ufInv n (p'[i := root]) rank"
      using p' root j(2) rk less.prems
      by (auto simp: ufInv_def nth_list_update)
    moreover have "p'[i := root] ! root = root"
      using ne root by simp
    moreover have "rank ! i \<le> rank ! root"
      using j(2) rk by simp
    moreover have "\<forall>k < n. parent ! k = k \<longrightarrow> p'[i := root] ! k = k"
    proof (intro allI impI)
      fix k assume k: "k < n" "parent ! k = k"
      with False have "k \<noteq> i" by auto
      then have "p'[i := root] ! k = p' ! k" by simp
      with keep k show "p'[i := root] ! k = k" by simp
    qed
    ultimately show ?thesis
      using root(1) by blast
  qed
qed

lemma unionSetsByIndex_total:
  assumes "ufInv n parent rank" "i < n" "j < n"
  shows "\<exists>parent' rank'. unionSetsByIndex (parent, rank) i j = Some (parent', rank')
      \<and> ufInv n parent' rank'"
proof -
  from findSetByIndex_total [OF assms(1,2)] obtain rootI p1
    where f1: "findSetByIndex parent i = Some (rootI, p1)"
      and p1: "ufInv n p1 rank" and rI: "rootI < n" "p1 ! rootI = rootI"
    by blast
  from findSetByIndex_total [OF p1 assms(3)] obtain rootJ p2
    where f2: "findSetByIndex p1 j = Some (rootJ, p2)"
      and p2: "ufInv n p2 rank" and rJ: "rootJ < n" "p2 ! rootJ = rootJ"
      and keep: "\<forall>k < n. p1 ! k = k \<longrightarrow> p2 ! k = k"
    by blast
  have rI2: "p2 ! rootI = rootI" using keep rI by simp
  have a: "ufInv n (p2[rootI := rootJ]) rank" if "rank ! rootI < rank ! rootJ"
    using p2 rI rJ that by (auto simp: ufInv_def nth_list_update)
  have b: "ufInv n (p2[rootJ := rootI]) rank" if "rank ! rootJ < rank ! rootI"
    using p2 rI rJ that by (auto simp: ufInv_def nth_list_update)
  have c: "ufInv n (p2[rootJ := rootI]) (rank[rootI := rank ! rootI + 1])"
    if "rank ! rootJ = rank ! rootI" "rootI \<noteq> rootJ"
    unfolding ufInv_def
  proof (intro conjI allI impI)
    show "length (p2[rootJ := rootI]) = n" "length (rank[rootI := rank ! rootI + 1]) = n"
      using p2 by (simp_all add: ufInv_def)
  next
    fix k assume k: "k < n"
    have "p2 ! k < n" "length p2 = n" using p2 k by (simp_all add: ufInv_def)
    then show "p2[rootJ := rootI] ! k < n"
      using rI(1) rJ(1) by (cases "k = rootJ") simp_all
  next
    fix k assume k: "k < n" and nk: "p2[rootJ := rootI] ! k \<noteq> k"
    have len: "length p2 = n" "length rank = n" using p2 by (simp_all add: ufInv_def)
    show "rank[rootI := rank ! rootI + 1] ! k
        < rank[rootI := rank ! rootI + 1] ! (p2[rootJ := rootI] ! k)"
    proof (cases "k = rootJ")
      case True
      with that rI rJ len show ?thesis by simp
    next
      case False
      then have pk: "p2[rootJ := rootI] ! k = p2 ! k" by simp
      with nk have "p2 ! k \<noteq> k" by simp
      then have lt: "rank ! k < rank ! (p2 ! k)" and kI: "k \<noteq> rootI"
        using p2 k rI2 by (auto simp: ufInv_def)
      have "p2 ! k < n" using p2 k by (simp add: ufInv_def)
      then have "rank ! (p2 ! k) \<le> rank[rootI := rank ! rootI + 1] ! (p2 ! k)"
        using len rI(1) by (cases "p2 ! k = rootI") simp_all
      with lt kI pk show ?thesis by simp
    qed
  qed
  show ?thesis
    using f1 f2 a b c p2
    by (auto simp: unionSetsByIndex_def not_less dest!: le_neq_implies_less)
qed

lemma index_bound: "r < h \<Longrightarrow> c < w \<Longrightarrow> r * w + c < h * (w :: nat)"
proof -
  assume "r < h" "c < w"
  then have "r * w + c < Suc r * w" by simp
  also have "\<dots> \<le> h * w" using \<open>r < h\<close> by (intro mult_le_mono1) simp
  finally show ?thesis .
qed

lemma walls_index:
  assumes "(wr, wc, (r1, c1), (r2, c2)) \<in> set (horizontalWalls w h @ verticalWalls w h)"
  shows "r1 * w + c1 < h * w" "r2 * w + c2 < h * w" "insideRing w h wr wc"
  using assms horizontalWalls_inside [of wr wc "((r1, c1), (r2, c2))" w h]
    verticalWalls_inside [of wr wc "((r1, c1), (r2, c2))" w h]
  by (auto simp: horizontalWalls_def verticalWalls_def intro!: index_bound)

lemma kruskalWall_total:
  assumes g: "ringWalls w h (fst st)" and u: "ufInv (h * w) (fst (snd st)) (snd (snd st))"
    and wl: "wl \<in> set (horizontalWalls w h @ verticalWalls w h)"
  shows "\<exists>st'. kruskalWall w st wl = Some st' \<and> ringWalls w h (fst st')
      \<and> ufInv (h * w) (fst (snd st')) (snd (snd st'))"
proof -
  obtain g0 parent rank where st: "st = (g0, parent, rank)" by (cases st)
  obtain wr wc r1 c1 r2 c2 where w: "wl = (wr, wc, (r1, c1), (r2, c2))" by (cases wl) auto
  note i = walls_index [OF wl [unfolded w]]
  have u0: "ufInv (h * w) parent rank" and g0: "ringWalls w h g0"
    using u g by (simp_all add: st)
  from findSetByIndex_total [OF u0 i(1)] obtain root1 p1
    where f1: "findSetByIndex parent (r1 * w + c1) = Some (root1, p1)"
      and p1: "ufInv (h * w) p1 rank"
    by blast
  from findSetByIndex_total [OF p1 i(2)] obtain root2 p2
    where f2: "findSetByIndex p1 (r2 * w + c2) = Some (root2, p2)"
      and p2: "ufInv (h * w) p2 rank"
    by blast
  from setCell_inside [OF g0 i(3), where v = 0] obtain g1
    where s: "setCell g0 wr wc 0 = Some g1" and g1: "ringWalls w h g1" by blast
  from unionSetsByIndex_total [OF p2 i(1) i(2)] obtain p3 rank3
    where un: "unionSetsByIndex (p2, rank) (r1 * w + c1) (r2 * w + c2) = Some (p3, rank3)"
      and p3: "ufInv (h * w) p3 rank3"
    by blast
  show ?thesis
    using f1 f2 s un g0 g1 p2 p3 by (simp add: kruskalWall_def st w Let_def)
qed

lemma kruskal_total:
  assumes "1 \<le> w" "1 \<le> h"
  shows "\<exists>g. generateKruskalsMaze rnd w h = Some g"
proof -
  let ?walls = "shuffle (draw rnd) (horizontalWalls w h @ verticalWalls w h)"
  let ?I = "\<lambda>s :: kruskal_state. ringWalls w h (fst s) \<and> ufInv (h * w) (fst (snd s)) (snd (snd s))"
  have "\<exists>g1. foldM kruskalInitCell (newGrid w h 1) (cellPositions w h) = Some g1 \<and> ringWalls w h g1"
  proof (rule foldM_total [where I = "ringWalls w h"])
    show "ringWalls w h (newGrid w h 1)" by (rule ringWalls_newGrid)
  next
    fix x :: coord and s :: grid
    assume "x \<in> set (cellPositions w h)" "ringWalls w h s"
    then show "\<exists>s'. kruskalInitCell s x = Some s' \<and> ringWalls w h s'"
      unfolding kruskalInitCell_def by (intro setCell_inside cellPositions_inside)
  qed
  then obtain g1 where 1: "foldM kruskalInitCell (newGrid w h 1) (cellPositions w h) = Some g1"
    "ringWalls w h g1" by blast
  have "\<exists>st. foldM (kruskalWall w) (g1, [0..<h * w], replicate (h * w) 0) ?walls = Some st \<and> ?I st"
  proof (rule foldM_total [where I = ?I])
    show "?I (g1, [0..<h * w], replicate (h * w) 0)"
      using 1(2) by (simp add: ufInv_def)
  next
    fix x :: wall and s :: kruskal_state
    assume "x \<in> set ?walls" "?I s"
    then show "\<exists>s'. kruskalWall w s x = Some s' \<and> ?I s'"
      using kruskalWall_total [of w h s x] by simp
  qed
  then obtain st where 2: "foldM (kruskalWall w) (g1, [0..<h * w], replicate (h * w) 0) ?walls = Some st"
    "ringWalls w h (fst st)" by blast
  from openings_total [OF 2(2) assms] 1(1) 2(1) show ?thesis
    by (auto simp: generateKruskalsMaze_def Let_def)
qed

subsubsection \<open>Recursive backtracker\<close>

lemma carveFrom_total:
  assumes "ringWalls w h (fst st)" "insideRing w h r c"
  shows "\<exists>st'. carveFrom w h st r c i = Some st' \<and> ringWalls w h (fst st')
      \<and> pathCells (fst st) \<subseteq> pathCells (fst st')
      \<and> length (fst (snd st')) = length (fst (snd st))"
  using wf_progress_rel assms
proof (induction "progress (gridArea w h) (pathCells (fst st)) (length (fst (snd st)) - i)"
    arbitrary: st r c i rule: wf_induct_rule)
  case less
  obtain g0 dirs rnd where st: "st = (g0, dirs, rnd)" by (cases st)
  let ?dr = "fst (dirs ! i)" and ?dc = "snd (dirs ! i)"
  let ?nr = "r + ?dr" and ?nc = "c + ?dc"
  have g0: "ringWalls w h g0" using less.prems(1) by (simp add: st)
  note rc = less.prems(2)
  show ?case
  proof (cases "i \<ge> length dirs")
    case True
    then have "carveFrom w h st r c i = Some st"
      by (subst carveFrom.simps) (simp add: st)
    with less.prems(1) show ?thesis by simp
  next
    case False
    show ?thesis
    proof (cases "isCell w h ?nr ?nc \<and> cell g0 ?nr ?nc = Some 1")
      case skip: False
      have e: "carveFrom w h st r c i = carveFrom w h st r c (i + 1)"
        using False skip by (subst carveFrom.simps) (auto simp: st Let_def)
      have "(progress (gridArea w h) (pathCells (fst st)) (length (fst (snd st)) - (i + 1)),
          progress (gridArea w h) (pathCells (fst st)) (length (fst (snd st)) - i)) \<in> progress_rel"
        using False by (intro progress_shrink) (simp_all add: st)
      from less.hyps [OF this less.prems] e show ?thesis by simp
    next
      case True
      then have n: "insideRing w h ?nr ?nc"
        by (simp add: isCell_inside)
      have wl: "insideRing w h (r + ?dr div 2) (c + ?dc div 2)"
        using rc n by (rule half_step_inside)
      from setCell_inside [OF g0 wl, where v = 0] obtain g1
        where a: "setCell g0 (r + ?dr div 2) (c + ?dc div 2) 0 = Some g1"
          and g1: "ringWalls w h g1" by blast
      from setCell_inside [OF g1 n, where v = 0] obtain g2
        where b: "setCell g1 ?nr ?nc 0 = Some g2" and g2: "ringWalls w h g2" by blast
      let ?st1 = "(g2, shuffle (draw rnd) dirs, rest rnd)"
      have en: "enterCell (g1, dirs, rnd) ?nr ?nc = Some ?st1"
        using b by (simp add: enterCell_def)
      have new: "(?nr, ?nc) \<in> gridArea w h" "(?nr, ?nc) \<notin> pathCells g0"
        using insideRing_area [OF n] True by (simp_all add: pathCells_def)
      have grow: "insert (?nr, ?nc) (pathCells g0) \<subseteq> pathCells g2"
        using pathCells_setCell [OF a] pathCells_setCell [OF b] by auto
      have "(progress (gridArea w h) (pathCells (fst ?st1)) (length (fst (snd ?st1)) - 0),
          progress (gridArea w h) (pathCells (fst st)) (length (fst (snd st)) - i)) \<in> progress_rel"
        using new grow by (intro progress_insert [where n = "(?nr, ?nc)"]) (simp_all add: st)
      from less.hyps [OF this, of ?nr ?nc] g2 n obtain st2
        where c: "carveFrom w h ?st1 ?nr ?nc 0 = Some st2" and r2: "ringWalls w h (fst st2)"
          and p2: "pathCells g2 \<subseteq> pathCells (fst st2)"
          and l2: "length (fst (snd st2)) = length dirs"
        by auto
      have "(progress (gridArea w h) (pathCells (fst st2)) (length (fst (snd st2)) - (i + 1)),
          progress (gridArea w h) (pathCells (fst st)) (length (fst (snd st)) - i)) \<in> progress_rel"
        using new grow p2 by (intro progress_insert [where n = "(?nr, ?nc)"]) (auto simp: st)
      from less.hyps [OF this r2 rc] obtain st'
        where d: "carveFrom w h st2 r c (i + 1) = Some st'" and r': "ringWalls w h (fst st')"
          and p': "pathCells (fst st2) \<subseteq> pathCells (fst st')"
          and l': "length (fst (snd st')) = length (fst (snd st2))"
        by auto
      have "carveFrom w h st r c i = Some st'"
        using False True a en c d by (subst carveFrom.simps) (simp add: st Let_def)
      moreover have "pathCells (fst st) \<subseteq> pathCells (fst st')"
        using grow p2 p' by (auto simp: st)
      ultimately show ?thesis
        using r' l' l2 by (simp add: st)
    qed
  qed
qed

lemma backtracker_total:
  assumes "1 \<le> w" "1 \<le> h"
  shows "\<exists>g. generateRecursiveBacktrackerMaze rnd w h = Some g"
proof -
  let ?r = "int (randomIndex rnd h) * 2 + 1" and ?c = "int (randomIndex (rest rnd) w) * 2 + 1"
  let ?rnd = "rest (rest rnd)"
  have i: "insideRing w h ?r ?c"
    using assms by (rule start_inside)
  from setCell_inside [OF ringWalls_newGrid i, where v = 0] obtain g1
    where s: "setCell (newGrid w h 1) ?r ?c 0 = Some g1" and g1: "ringWalls w h g1" by blast
  let ?st1 = "(g1, shuffle (draw ?rnd) directions2, rest ?rnd)"
  have e: "enterCell (newGrid w h 1, directions2, ?rnd) ?r ?c = Some ?st1"
    using s by (simp add: enterCell_def)
  from carveFrom_total [of w h ?st1 ?r ?c 0] g1 i obtain st
    where c: "carveFrom w h ?st1 ?r ?c 0 = Some st" and r: "ringWalls w h (fst st)"
    by auto
  from openings_total [OF r assms] e c show ?thesis
    by (auto simp: generateRecursiveBacktrackerMaze_def carvePath_def Let_def)
qed

subsubsection \<open>Recursive division\<close>

lemma setCell_dimsOK:
  assumes "dimsOK w h g" "0 \<le> r" "r < int (gridHeight h)" "0 \<le> c" "c < int (gridWidth w)"
  shows "\<exists>g'. setCell g r c v = Some g' \<and> dimsOK w h g'"
  using setCell_inRange [of g "gridHeight h" "gridWidth w" r c v] assms
  by (simp add: dimsOK_def)

lemma two_walls_total:
  assumes "dimsOK w h m"
    and "0 \<le> r1" "r1 < int (gridHeight h)" "0 \<le> c1" "c1 < int (gridWidth w)"
    and "0 \<le> r2" "r2 < int (gridHeight h)" "0 \<le> c2" "c2 < int (gridWidth w)"
  shows "\<exists>m'. (case setCell m r1 c1 1 of None \<Rightarrow> None | Some m1 \<Rightarrow> setCell m1 r2 c2 1) = Some m'
      \<and> dimsOK w h m'"
proof -
  from setCell_dimsOK [OF assms(1-5), of 1] obtain m1
    where 1: "setCell m r1 c1 1 = Some m1" "dimsOK w h m1" by blast
  from setCell_dimsOK [OF 1(2) assms(6-9), of 1] 1(1) show ?thesis by simp
qed

lemma addOuterWalls_total:
  "\<exists>g. addOuterWalls w h (newGrid w h 0) = Some g"
proof -
  let ?H = "int (gridHeight h)" and ?W = "int (gridWidth w)"
  let ?f1 = "\<lambda>m r. case setCell m r 0 1 of None \<Rightarrow> None | Some m1 \<Rightarrow> setCell m1 r (?W - 1) 1"
  let ?f2 = "\<lambda>m c. case setCell m 0 c 1 of None \<Rightarrow> None | Some m1 \<Rightarrow> setCell m1 (?H - 1) c 1"
  have "\<exists>g1. foldM ?f1 (newGrid w h 0) (map int [0..<gridHeight h]) = Some g1 \<and> dimsOK w h g1"
  proof (rule foldM_total [where I = "dimsOK w h"])
    show "dimsOK w h (newGrid w h 0)" by (simp add: dimsOK_def newGrid_def)
  next
    fix x :: int and s :: grid
    assume "x \<in> set (map int [0..<gridHeight h])" "dimsOK w h s"
    then show "\<exists>s'. ?f1 s x = Some s' \<and> dimsOK w h s'"
      by (intro two_walls_total) (auto simp: gridWidth_def)
  qed
  then obtain g1 where 1: "foldM ?f1 (newGrid w h 0) (map int [0..<gridHeight h]) = Some g1"
    "dimsOK w h g1" by blast
  have "\<exists>g. foldM ?f2 g1 (map int [0..<gridWidth w]) = Some g \<and> dimsOK w h g"
  proof (rule foldM_total [where I = "dimsOK w h"])
    show "dimsOK w h g1" by (rule 1(2))
  next
    fix x :: int and s :: grid
    assume "x \<in> set (map int [0..<gridWidth w])" "dimsOK w h s"
    then show "\<exists>s'. ?f2 s x = Some s' \<and> dimsOK w h s'"
      by (intro two_walls_total) (auto simp: gridHeight_def)
  qed
  with 1(1) show ?thesis
    by (auto simp: addOuterWalls_def)
qed

lemma wallLine_total:
  assumes "dimsOK w h g"
    and "\<forall>x \<in> set xs. 0 \<le> a x \<and> a x < int (gridHeight h) \<and> 0 \<le> b x \<and> b x < int (gridWidth w)"
  shows "\<exists>g'. foldM (\<lambda>m x. if x \<noteq> p then setCell m (a x) (b x) 1 else Some m) g xs = Some g'
      \<and> dimsOK w h g'"
proof (rule foldM_total [where I = "dimsOK w h"])
  show "dimsOK w h g" by (rule assms(1))
next
  fix x s
  assume "x \<in> set xs" "dimsOK w h s"
  then show "\<exists>s'. (if x \<noteq> p then setCell s (a x) (b x) 1 else Some s) = Some s' \<and> dimsOK w h s'"
    using assms(2) setCell_dimsOK [of w h s "a x" "b x" 1] by auto
qed

lemma wall_position:
  assumes "4 \<le> b - a"
  shows "a < a + 1 + 2 * int (randomIndex rnd (nat ((b - a) div 2)))"
    and "a + 1 + 2 * int (randomIndex rnd (nat ((b - a) div 2))) < b"
proof -
  have "0 < nat ((b - a) div 2)" using assms by simp
  from randomIndex_less [OF this, of rnd]
  have "int (randomIndex rnd (nat ((b - a) div 2))) < (b - a) div 2"
    by simp
  then show "a + 1 + 2 * int (randomIndex rnd (nat ((b - a) div 2))) < b"
    by linarith
  show "a < a + 1 + 2 * int (randomIndex rnd (nat ((b - a) div 2)))"
    by simp
qed

lemma divide_total:
  assumes "dimsOK w h (fst st)"
    and "0 \<le> r1" "r2 < int (gridHeight h)" "0 \<le> c1" "c2 < int (gridWidth w)"
  shows "\<exists>st'. divide st r1 c1 r2 c2 = Some st' \<and> dimsOK w h (fst st')"
  using assms
proof (induction "nat (r2 - r1) + nat (c2 - c1)" arbitrary: st r1 c1 r2 c2 rule: less_induct)
  case less
  show ?case
  proof (cases "r2 - r1 < 4 \<or> c2 - c1 < 4")
    case True
    then have "divide st r1 c1 r2 c2 = Some st"
      by (subst divide.simps) simp
    with less.prems(1) show ?thesis by simp
  next
    case False
    then have big: "4 \<le> r2 - r1" "4 \<le> c2 - c1" by simp_all
    obtain dh rnd1 where ch: "chooseHorizontal (snd st) r1 c1 r2 c2 = (dh, rnd1)"
      by (cases "chooseHorizontal (snd st) r1 c1 r2 c2")
    show ?thesis
    proof (cases dh)
      case True
      let ?wr = "r1 + 1 + 2 * int (randomIndex rnd1 (nat ((r2 - r1) div 2)))"
      let ?p = "c1 + 2 * int (randomIndex (rest rnd1) (nat ((c2 - c1) div 2 + 1)))"
      note wr = wall_position [OF big(1), of rnd1]
      have "\<exists>m. foldM (\<lambda>m c. if c \<noteq> ?p then setCell m ?wr c 1 else Some m) (fst st) [c1..c2]
          = Some m \<and> dimsOK w h m"
        using wr less.prems
        by (intro wallLine_total [where a = "\<lambda>c. ?wr" and b = "\<lambda>c. c"]) auto
      then obtain m
        where f: "foldM (\<lambda>m c. if c \<noteq> ?p then setCell m ?wr c 1 else Some m) (fst st) [c1..c2]
          = Some m" and m: "dimsOK w h m" by blast
      have "nat (?wr - 1 - r1) + nat (c2 - c1) < nat (r2 - r1) + nat (c2 - c1)"
        using wr by linarith
      from less.hyps [OF this, of "(m, rest (rest rnd1))"] m less.prems wr obtain st1
        where a: "divide (m, rest (rest rnd1)) r1 c1 (?wr - 1) c2 = Some st1"
          and s1: "dimsOK w h (fst st1)"
        by auto
      have "nat (r2 - (?wr + 1)) + nat (c2 - c1) < nat (r2 - r1) + nat (c2 - c1)"
        using wr by linarith
      from less.hyps [OF this, of st1] s1 less.prems wr obtain st'
        where b: "divide st1 (?wr + 1) c1 r2 c2 = Some st'" and s': "dimsOK w h (fst st')"
        by auto
      have "divide st r1 c1 r2 c2 = Some st'"
        using False ch True f a b by (subst divide.simps) (simp add: Let_def)
      with s' show ?thesis by simp
    next
      case dv: False
      let ?wc = "c1 + 1 + 2 * int (randomIndex rnd1 (nat ((c2 - c1) div 2)))"
      let ?p = "r1 + 2 * int (randomIndex (rest rnd1) (nat ((r2 - r1) div 2 + 1)))"
      note wc = wall_position [OF big(2), of rnd1]
      have "\<exists>m. foldM (\<lambda>m r. if r \<noteq> ?p then setCell m r ?wc 1 else Some m) (fst st) [r1..r2]
          = Some m \<and> dimsOK w h m"
        using wc less.prems
        by (intro wallLine_total [where a = "\<lambda>r. r" and b = "\<lambda>r. ?wc"]) auto
      then obtain m
        where f: "foldM (\<lambda>m r. if r \<noteq> ?p then setCell m r ?wc 1 else Some m) (fst st) [r1..r2]
          = Some m" and m: "dimsOK w h m" by blast
      have "nat (r2 - r1) + nat (?wc - 1 - c1) < nat (r2 - r1) + nat (c2 - c1)"
        using wc by linarith
      from less.hyps [OF this, of "(m, rest (rest rnd1))"] m less.prems wc obtain st1
        where a: "divide (m, rest (rest rnd1)) r1 c1 r2 (?wc - 1) = Some st1"
          and s1: "dimsOK w h (fst st1)"
        by auto
      have "nat (r2 - r1) + nat (c2 - (?wc + 1)) < nat (r2 - r1) + nat (c2 - c1)"
        using wc by linarith
      from less.hyps [OF this, of st1] s1 less.prems wc obtain st'
        where b: "divide st1 r1 (?wc + 1) r2 c2 = Some st'" and s': "dimsOK w h (fst st')"
        by auto
      have "divide st r1 c1 r2 c2 = Some st'"
        using False ch dv f a b by (subst divide.simps) (simp add: Let_def)
      with s' show ?thesis by simp
    qed
  qed
qed

lemma division_total:
  assumes "1 \<le> w" "1 \<le> h"
  shows "\<exists>g. generateRecursiveDivisionMaze rnd w h = Some g"
proof -
  from addOuterWalls_total [of w h] obtain g1
    where a: "addOuterWalls w h (newGrid w h 0) = Some g1" by blast
  have r1: "ringWalls w h g1"
    using a by (rule addOuterWalls_ring)
  then have "dimsOK w h g1" by (simp add: ringWalls_def dimsOK_def)
  from divide_total [of w h "(g1, rnd)" 1 "int (gridHeight h) - 2" 1 "int (gridWidth w) - 2"] this
  obtain st where d: "divide (g1, rnd) 1 1 (int (gridHeight h) - 2) (int (gridWidth w) - 2) = Some st"
    by auto
  from divide_ring [OF d, of w h] r1 have "ringWalls w h (fst st)" by simp
  from openings_total [OF this assms] a d show ?thesis
    by (auto simp: generateRecursiveDivisionMaze_def)
qed

subsection \<open>The two generators that walk at random\<close>

text \<open>
  Aldous-Broder and Wilson's algorithm walk at random until every cell has been visited.
  Some sequences of outcomes never get there (the walk can step back and forth between
  two cells forever), so these two do not return for every outcome of the random choices.
  No write of theirs leaves the array, though: whenever they return nothing, a loop runs
  forever.
\<close>

text \<open>
  \<open>passes n b body s\<close> is the state after the first \<open>n\<close> passes of the loop
  \<open>while (b) body\<close> started in \<open>s\<close>, if the loop makes that many passes: the test holds
  before each of them and each of them returns.
\<close>

fun passes :: "nat \<Rightarrow> ('s \<Rightarrow> bool) \<Rightarrow> ('s \<Rightarrow> 's option) \<Rightarrow> 's \<Rightarrow> 's option" where
  "passes 0 b body s = Some s"
| "passes (Suc n) b body s = (if b s then Option.bind (body s) (passes n b body) else None)"

text \<open>The loop runs forever: it makes any number of passes.\<close>

definition neverEnds :: "('s \<Rightarrow> bool) \<Rightarrow> ('s \<Rightarrow> 's option) \<Rightarrow> 's \<Rightarrow> bool" where
  "neverEnds b body s = (\<forall>n. passes n b body s \<noteq> None)"

lemma whileM_Some_passes:
  assumes "whileM b body s = Some t"
  shows "\<exists>n. passes n b body s = None"
proof (induct rule: whileM.raw_induct [OF _ assms])
  case (1 whileM b body s t)
  show ?case
  proof (cases "b s")
    case False
    then have "passes (Suc 0) b body s = None" by simp
    then show ?thesis by blast
  next
    case True
    with 1(2) obtain s1 where s1: "body s = Some s1" "whileM b body s1 = Some t"
      by (auto simp: bind_eq_Some_conv)
    from 1(1) [OF s1(2)] obtain n where "passes n b body s1 = None" by blast
    with True s1(1) have "passes (Suc n) b body s = None" by simp
    then show ?thesis by blast
  qed
qed

lemma neverEnds_None:
  assumes "neverEnds b body s"
  shows "whileM b body s = None"
proof (cases "whileM b body s")
  case None
  then show ?thesis .
next
  case (Some t)
  from whileM_Some_passes [OF this] obtain n where "passes n b body s = None" by blast
  with assms show ?thesis unfolding neverEnds_def by blast
qed

lemma passes_stuck:
  "passes n b body s = Some t \<Longrightarrow> b t \<Longrightarrow> body t = None \<Longrightarrow> whileM b body s = None"
proof (induction n arbitrary: s)
  case 0
  then show ?case by (subst whileM.simps) simp
next
  case (Suc n)
  from Suc.prems(1) obtain s1 where s1: "b s" "body s = Some s1" "passes n b body s1 = Some t"
    by (auto simp: bind_eq_Some_conv split: if_splits)
  from Suc.IH [OF s1(3) Suc.prems(2,3)] s1(1,2) show ?case
    by (subst whileM.simps) simp
qed

text \<open>
  A loop returns, or it runs forever, or one of its passes does not return. \<open>I\<close> is an
  invariant of the loop.
\<close>

lemma whileM_cases:
  assumes "I s" and pres: "\<And>s s'. I s \<Longrightarrow> b s \<Longrightarrow> body s = Some s' \<Longrightarrow> I s'"
  shows "(\<exists>t. whileM b body s = Some t \<and> I t \<and> \<not> b t)
       \<or> neverEnds b body s
       \<or> (\<exists>n t. passes n b body s = Some t \<and> I t \<and> b t \<and> body t = None)"
proof (cases "neverEnds b body s")
  case True
  then show ?thesis by simp
next
  case False
  then obtain n where "passes n b body s = None"
    by (auto simp: neverEnds_def)
  then have "(\<exists>t. whileM b body s = Some t \<and> I t \<and> \<not> b t)
       \<or> (\<exists>k t. passes k b body s = Some t \<and> I t \<and> b t \<and> body t = None)"
    using assms(1)
  proof (induction n arbitrary: s)
    case 0
    then show ?case by simp
  next
    case (Suc n)
    show ?case
    proof (cases "b s")
      case False
      then have "whileM b body s = Some s" by (subst whileM.simps) simp
      with False Suc.prems(2) show ?thesis by blast
    next
      case True
      show ?thesis
      proof (cases "body s")
        case None
        have "passes 0 b body s = Some s" by simp
        with None True Suc.prems(2) show ?thesis by blast
      next
        case (Some s1)
        have i1: "I s1" using pres [OF Suc.prems(2) True Some] .
        have "passes n b body s1 = None"
          using Suc.prems(1) True Some by simp
        from Suc.IH [OF this i1] show ?thesis
        proof (elim disjE exE conjE)
          fix t assume "whileM b body s1 = Some t" "I t" "\<not> b t"
          moreover from this(1) True Some have "whileM b body s = Some t"
            by (subst whileM.simps) simp
          ultimately show ?thesis by blast
        next
          fix k t assume "passes k b body s1 = Some t" "I t" "b t" "body t = None"
          moreover from this(1) True Some have "passes (Suc k) b body s = Some t" by simp
          ultimately show ?thesis by blast
        qed
      qed
    qed
  qed
  then show ?thesis by blast
qed

subsubsection \<open>Aldous-Broder\<close>

text \<open>The state in which \<open>generateAldousBroderMaze\<close> enters its loop.\<close>

definition aldousBroderStart :: "rand \<Rightarrow> nat \<Rightarrow> nat \<Rightarrow> ab_state" where
  "aldousBroderStart rnd width height =
     (let currentCell = (int (randomIndex rnd height), int (randomIndex (rest rnd) width));
          cur = cellToGrid currentCell
      in (the (setCell (newGrid width height 1) (fst cur) (snd cur) 0), {currentCell}, cur, 1,
          rest (rest rnd)))"

lemma aldousBroderBody_total:
  assumes g: "ringWalls w h (fst st)"
    and c: "insideRing w h (fst (fst (snd (snd st)))) (snd (fst (snd (snd st))))"
  shows "\<exists>st'. aldousBroderBody w h st = Some st'"
proof -
  obtain g0 vis cur n rnd where st: "st = (g0, vis, cur, n, rnd)" by (cases st)
  let ?nxt = "move cur (directions2 ! randomIndex rnd (length directions2))"
  let ?wl = "wallBetween cur ?nxt"
  have cur: "insideRing w h (fst cur) (snd cur)" using c by (simp add: st)
  have g0: "ringWalls w h g0" using g by (simp add: st)
  show ?thesis
  proof (cases "isCell w h (fst ?nxt) (snd ?nxt)")
    case False
    then show ?thesis
      by (simp add: aldousBroderBody_def st Let_def)
  next
    case True
    then have nx: "insideRing w h (fst ?nxt) (snd ?nxt)" by (rule isCell_inside)
    have wl: "insideRing w h (fst ?wl) (snd ?wl)"
      using cur nx by (rule wallBetween_inside)
    from setCell_inside [OF g0 wl, where v = 0] obtain g1
      where 1: "setCell g0 (fst ?wl) (snd ?wl) 0 = Some g1" and g1: "ringWalls w h g1" by blast
    from setCell_inside [OF g1 nx, where v = 0] obtain g2
      where 2: "setCell g1 (fst ?nxt) (snd ?nxt) 0 = Some g2" by blast
    from True 1 2 show ?thesis
      by (simp add: aldousBroderBody_def st Let_def)
  qed
qed

lemma aldousBroder_cases:
  assumes "1 \<le> w" "1 \<le> h"
  shows "(\<exists>g. generateAldousBroderMaze rnd w h = Some g \<and> ringSpec w h g)
       \<or> (generateAldousBroderMaze rnd w h = None
           \<and> neverEnds (\<lambda>(g, visitedCells, cur, cellsVisitedCount, rnd). cellsVisitedCount < w * h)
                (aldousBroderBody w h) (aldousBroderStart rnd w h))"
proof -
  let ?cc = "(int (randomIndex rnd h), int (randomIndex (rest rnd) w))"
  let ?cur = "cellToGrid ?cc"
  let ?b = "(\<lambda>(g, visitedCells, cur, cellsVisitedCount, rnd). cellsVisitedCount < w * h)
      :: ab_state \<Rightarrow> bool"
  let ?I = "\<lambda>s :: ab_state. ringWalls w h (fst s)
       \<and> insideRing w h (fst (fst (snd (snd s)))) (snd (fst (snd (snd s))))"
  have c: "insideRing w h (fst ?cur) (snd ?cur)"
    using assms by (intro cellToGrid_inside randomCell_isCellCoord)
  from setCell_inside [OF ringWalls_newGrid c, where v = 0] obtain g1
    where s: "setCell (newGrid w h 1) (fst ?cur) (snd ?cur) 0 = Some g1" and 1: "ringWalls w h g1"
    by blast
  let ?s0 = "(g1, {?cc}, ?cur, 1, rest (rest rnd)) :: ab_state"
  have start: "aldousBroderStart rnd w h = ?s0"
    using s by (simp add: aldousBroderStart_def Let_def)
  have gen: "generateAldousBroderMaze rnd w h
      = (case whileM ?b (aldousBroderBody w h) ?s0 of
           None \<Rightarrow> None | Some st \<Rightarrow> openings w h (fst st))"
    using s by (simp add: generateAldousBroderMaze_def Let_def)
  have "(\<exists>t. whileM ?b (aldousBroderBody w h) ?s0 = Some t \<and> ?I t \<and> \<not> ?b t)
       \<or> neverEnds ?b (aldousBroderBody w h) ?s0
       \<or> (\<exists>n t. passes n ?b (aldousBroderBody w h) ?s0 = Some t \<and> ?I t \<and> ?b t
            \<and> aldousBroderBody w h t = None)"
  proof (rule whileM_cases [where I = ?I])
    show "?I ?s0" using 1 c by simp
  next
    fix s s' :: ab_state
    assume "?I s" "aldousBroderBody w h s = Some s'"
    then show "?I s'"
      using aldousBroderBody_ring [of w h s s'] by simp
  qed
  then show ?thesis
  proof (elim disjE exE conjE)
    fix t assume t: "whileM ?b (aldousBroderBody w h) ?s0 = Some t" "ringWalls w h (fst t)"
    from openings_total [OF t(2) assms] obtain g where "openings w h (fst t) = Some g" by blast
    with t(1) have g: "generateAldousBroderMaze rnd w h = Some g"
      by (simp add: gen)
    from aldousBroder_ring [OF g assms] g show ?thesis by blast
  next
    assume n: "neverEnds ?b (aldousBroderBody w h) ?s0"
    from neverEnds_None [OF n] have "generateAldousBroderMaze rnd w h = None"
      by (simp add: gen)
    with n start show ?thesis by simp
  next
    fix n t assume "ringWalls w h (fst t)"
      "insideRing w h (fst (fst (snd (snd t)))) (snd (fst (snd (snd t))))"
      "aldousBroderBody w h t = None"
    with aldousBroderBody_total [of w h t] show ?thesis by simp
  qed
qed

subsubsection \<open>Wilson\<close>

text \<open>The state in which \<open>generateWilsonsMaze\<close> enters its outer loop.\<close>

definition wilsonsStart :: "rand \<Rightarrow> nat \<Rightarrow> nat \<Rightarrow> wilson_state" where
  "wilsonsStart rnd width height =
     (case pickCell width height rnd of
        (initialGrid, rnd1) \<Rightarrow>
          (the (setCell (newGrid width height 1) (fst initialGrid) (snd initialGrid) 0),
           {initialGrid}, rnd1))"

text \<open>
  A pass of the outer loop entered in state \<open>st\<close> never completes: the loop that picks
  the start of the walk runs forever, or it returns and the walk runs forever.
\<close>

definition wilsonPassNeverEnds :: "nat \<Rightarrow> nat \<Rightarrow> wilson_state \<Rightarrow> bool" where
  "wilsonPassNeverEnds width height st =
     (case st of (g, visitedCells, rnd) \<Rightarrow>
        neverEnds (\<lambda>(p, rnd). p \<in> visitedCells) (\<lambda>(p, rnd). Some (pickCell width height rnd))
          (pickCell width height rnd)
        \<or> (\<exists>startWalk rnd1.
              pickUnvisited width height visitedCells rnd = Some (startWalk, rnd1)
              \<and> neverEnds (\<lambda>(walkPath, pathVisited, cur, rnd). cur \<notin> visitedCells)
                   (walkBody width height) ([startWalk], {startWalk}, startWalk, rnd1)))"

text \<open>
  \<open>generateWilsonsMaze\<close> runs forever: its outer loop does, or after some passes of the
  outer loop a pass never completes.
\<close>

definition wilsonsNeverEnds :: "rand \<Rightarrow> nat \<Rightarrow> nat \<Rightarrow> bool" where
  "wilsonsNeverEnds rnd width height =
     (neverEnds (\<lambda>(g, visitedCells, rnd). card visitedCells < width * height)
        (wilsonBody width height) (wilsonsStart rnd width height)
      \<or> (\<exists>n st. passes n (\<lambda>(g, visitedCells, rnd). card visitedCells < width * height)
                   (wilsonBody width height) (wilsonsStart rnd width height) = Some st
                 \<and> (case st of (g, visitedCells, rnd) \<Rightarrow> card visitedCells < width * height)
                 \<and> wilsonPassNeverEnds width height st))"

lemma walkBody_total: "\<exists>st'. walkBody w h st = Some st'"
  by (cases st) (simp add: walkBody_def Let_def)

lemma carveStep_total:
  assumes "ringWalls w h (fst st)" "allInside w h wp" "i < length wp"
  shows "\<exists>st'. carveStep wp st i = Some st' \<and> ringWalls w h (fst st')"
proof -
  obtain g0 vis where st: "st = (g0, vis)" by (cases st)
  let ?rc = "wp ! i"
  have g0: "ringWalls w h g0" using assms(1) by (simp add: st)
  have rc: "insideRing w h (fst ?rc) (snd ?rc)"
    using assms(2,3) by (simp add: allInside_def)
  from setCell_inside [OF g0 rc, where v = 0] obtain g1
    where 1: "setCell g0 (fst ?rc) (snd ?rc) 0 = Some g1" and g1: "ringWalls w h g1" by blast
  show ?thesis
  proof (cases "i > 0")
    case False
    with 1 g1 show ?thesis
      by (simp add: carveStep_def st Let_def)
  next
    case True
    let ?wl = "wallBetween ?rc (wp ! (i - 1))"
    have "insideRing w h (fst (wp ! (i - 1))) (snd (wp ! (i - 1)))"
      using assms(2,3) by (simp add: allInside_def)
    with rc have wl: "insideRing w h (fst ?wl) (snd ?wl)"
      by (rule wallBetween_inside)
    from setCell_inside [OF g1 wl, where v = 0] obtain g2
      where "setCell g1 (fst ?wl) (snd ?wl) 0 = Some g2" "ringWalls w h g2" by blast
    with 1 True show ?thesis
      by (simp add: carveStep_def st Let_def)
  qed
qed

lemma wilsonBody_None:
  assumes g: "ringWalls w h (fst st)" and n: "wilsonBody w h st = None"
    and wh: "1 \<le> w" "1 \<le> h"
  shows "wilsonPassNeverEnds w h st"
proof -
  obtain g0 vis rnd where st: "st = (g0, vis, rnd)" by (cases st)
  let ?pb = "(\<lambda>(p, rnd). p \<in> vis) :: coord \<times> rand \<Rightarrow> bool"
  let ?pbody = "(\<lambda>(p, rnd). Some (pickCell w h rnd)) :: coord \<times> rand \<Rightarrow> (coord \<times> rand) option"
  let ?wb = "(\<lambda>(walkPath, pathVisited, cur, rnd). cur \<notin> vis) :: walk_state \<Rightarrow> bool"
  have pbody: "?pbody t \<noteq> None" for t
    by (cases t) simp
  have "(\<exists>t. whileM ?pb ?pbody (pickCell w h rnd) = Some t \<and> True \<and> \<not> ?pb t)
      \<or> neverEnds ?pb ?pbody (pickCell w h rnd)
      \<or> (\<exists>k t. passes k ?pb ?pbody (pickCell w h rnd) = Some t \<and> True \<and> ?pb t \<and> ?pbody t = None)"
    by (rule whileM_cases [where I = "\<lambda>s. True"]) simp_all
  then have "(\<exists>t. whileM ?pb ?pbody (pickCell w h rnd) = Some t)
      \<or> neverEnds ?pb ?pbody (pickCell w h rnd)"
    using pbody by blast
  then show ?thesis
  proof (elim disjE exE)
    assume "neverEnds ?pb ?pbody (pickCell w h rnd)"
    then show ?thesis by (simp add: wilsonPassNeverEnds_def st)
  next
    fix t assume "whileM ?pb ?pbody (pickCell w h rnd) = Some t"
    moreover obtain p rnd1 where "t = (p, rnd1)" by (cases t)
    ultimately have pick: "pickUnvisited w h vis rnd = Some (p, rnd1)"
      by (simp add: pickUnvisited_def)
    have sw: "insideRing w h (fst p) (snd p)"
      using pick wh by (rule pickUnvisited_inside)
    let ?s0 = "([p], {p}, p, rnd1) :: walk_state"
    let ?I = "\<lambda>s :: walk_state. allInside w h (fst s)"
    have "(\<exists>t. whileM ?wb (walkBody w h) ?s0 = Some t \<and> ?I t \<and> \<not> ?wb t)
        \<or> neverEnds ?wb (walkBody w h) ?s0
        \<or> (\<exists>k t. passes k ?wb (walkBody w h) ?s0 = Some t \<and> ?I t \<and> ?wb t
              \<and> walkBody w h t = None)"
    proof (rule whileM_cases [where I = ?I])
      show "?I ?s0" using sw by (simp add: allInside_def)
    next
      fix s s' :: walk_state
      assume "?I s" "walkBody w h s = Some s'"
      then show "?I s'" by (rule walkBody_inside)
    qed
    then show ?thesis
    proof (elim disjE exE conjE)
      assume wloop: "neverEnds ?wb (walkBody w h) ?s0"
      have "\<exists>startWalk rnd1. pickUnvisited w h vis rnd = Some (startWalk, rnd1)
          \<and> neverEnds ?wb (walkBody w h) ([startWalk], {startWalk}, startWalk, rnd1)"
        using pick wloop by blast
      then show ?thesis by (simp add: wilsonPassNeverEnds_def st)
    next
      fix k t assume "walkBody w h t = None"
      with walkBody_total [of w h t] show ?thesis by simp
    next
      fix t assume walk: "whileM ?wb (walkBody w h) ?s0 = Some t" "allInside w h (fst t)"
      obtain wp pv cur rnd2 where t: "t = (wp, pv, cur, rnd2)" by (cases t)
      have wp: "allInside w h wp" using walk(2) by (simp add: t)
      have "\<exists>s'. foldM (carveStep wp) (g0, vis) [0..<length wp] = Some s'
          \<and> ringWalls w h (fst s')"
      proof (rule foldM_total [where I = "\<lambda>s. ringWalls w h (fst s)"])
        show "ringWalls w h (fst (g0, vis))" using g by (simp add: st)
      next
        fix i and s :: "grid \<times> coord set"
        assume "i \<in> set [0..<length wp]" "ringWalls w h (fst s)"
        then have "i < length wp" "ringWalls w h (fst s)" by simp_all
        then show "\<exists>s'. carveStep wp s i = Some s' \<and> ringWalls w h (fst s')"
          using wp by (intro carveStep_total)
      qed
      then obtain s' where f: "foldM (carveStep wp) (g0, vis) [0..<length wp] = Some s'"
        by blast
      obtain g1 vis1 where s': "s' = (g1, vis1)" by (cases s')
      have "wilsonBody w h st = Some (g1, vis1, rnd2)"
        using pick walk(1) f by (simp add: wilsonBody_def st t s')
      with n show ?thesis by simp
    qed
  qed
qed

lemma wilsons_cases:
  assumes "1 \<le> w" "1 \<le> h"
  shows "(\<exists>g. generateWilsonsMaze rnd w h = Some g \<and> ringSpec w h g)
       \<or> (generateWilsonsMaze rnd w h = None \<and> wilsonsNeverEnds rnd w h)"
proof -
  obtain ig rnd1 where pc: "pickCell w h rnd = (ig, rnd1)" by (cases "pickCell w h rnd")
  let ?b = "(\<lambda>(g, visitedCells, rnd). card visitedCells < w * h) :: wilson_state \<Rightarrow> bool"
  let ?I = "\<lambda>s :: wilson_state. ringWalls w h (fst s)"
  have "insideRing w h (fst ig) (snd ig)"
    using pickCell_inside [OF assms, of rnd] by (simp add: pc)
  from setCell_inside [OF ringWalls_newGrid this, where v = 0] obtain g1
    where s: "setCell (newGrid w h 1) (fst ig) (snd ig) 0 = Some g1" and 1: "ringWalls w h g1"
    by blast
  let ?s0 = "(g1, {ig}, rnd1) :: wilson_state"
  have start: "wilsonsStart rnd w h = ?s0"
    using s by (simp add: wilsonsStart_def pc)
  have gen: "generateWilsonsMaze rnd w h
      = (case whileM ?b (wilsonBody w h) ?s0 of
           None \<Rightarrow> None | Some st \<Rightarrow> openings w h (fst st))"
    using s by (simp add: generateWilsonsMaze_def pc)
  have "(\<exists>t. whileM ?b (wilsonBody w h) ?s0 = Some t \<and> ?I t \<and> \<not> ?b t)
       \<or> neverEnds ?b (wilsonBody w h) ?s0
       \<or> (\<exists>n t. passes n ?b (wilsonBody w h) ?s0 = Some t \<and> ?I t \<and> ?b t
            \<and> wilsonBody w h t = None)"
  proof (rule whileM_cases [where I = ?I])
    show "?I ?s0" using 1 by simp
  next
    fix s s' :: wilson_state
    assume "?I s" "wilsonBody w h s = Some s'"
    then show "?I s'"
      using assms by (intro wilsonBody_ring [of w h s s'])
  qed
  then show ?thesis
  proof (elim disjE exE conjE)
    fix t assume t: "whileM ?b (wilsonBody w h) ?s0 = Some t" "ringWalls w h (fst t)"
    from openings_total [OF t(2) assms] obtain g where "openings w h (fst t) = Some g" by blast
    with t(1) have g: "generateWilsonsMaze rnd w h = Some g"
      by (simp add: gen)
    from wilsons_ring [OF g assms] g show ?thesis by blast
  next
    assume n: "neverEnds ?b (wilsonBody w h) ?s0"
    from neverEnds_None [OF n] have "generateWilsonsMaze rnd w h = None"
      by (simp add: gen)
    with n start show ?thesis by (simp add: wilsonsNeverEnds_def)
  next
    fix n t assume p: "passes n ?b (wilsonBody w h) ?s0 = Some t" and i: "ringWalls w h (fst t)"
      and b: "?b t" and nb: "wilsonBody w h t = None"
    from passes_stuck [OF p b nb] have "generateWilsonsMaze rnd w h = None"
      by (simp add: gen)
    moreover have "wilsonPassNeverEnds w h t"
      using i nb assms by (rule wilsonBody_None)
    moreover have "\<exists>n st. passes n ?b (wilsonBody w h) ?s0 = Some st \<and> ?b st
        \<and> wilsonPassNeverEnds w h st"
      using p b \<open>wilsonPassNeverEnds w h t\<close> by blast
    ultimately show ?thesis
      by (simp add: wilsonsNeverEnds_def start)
  qed
qed

text \<open>
  Both cases occur. When every draw is \<open>0\<close>, Aldous-Broder starts in the top left cell and
  tries to step up, out of the grid, forever; Wilson's algorithm picks the top left cell
  as the first cell of the maze and then again and again as the start of its first walk.
\<close>

lemma passes_fixpoint: "b s \<Longrightarrow> body s = Some s \<Longrightarrow> passes n b body s = Some s"
  by (induction n) simp_all

lemma neverEnds_fixpoint: "b s \<Longrightarrow> body s = Some s \<Longrightarrow> neverEnds b body s"
  by (simp add: neverEnds_def passes_fixpoint)

lemma aldousBroder_can_run_forever:
  assumes "1 \<le> w" "1 \<le> h" "2 \<le> w * h"
  shows "generateAldousBroderMaze [] w h = None"
proof -
  let ?b = "(\<lambda>(g, visitedCells, cur, cellsVisitedCount, rnd). cellsVisitedCount < w * h)
      :: ab_state \<Rightarrow> bool"
  have r: "randomIndex [] n = 0" "rest [] = []" for n
    by (simp_all add: randomIndex_def draw_def rest_def)
  obtain g where s: "aldousBroderStart [] w h = (g, {(0, 0)}, (1, 1), 1, [])"
    by (simp add: aldousBroderStart_def r cellToGrid_def)
  have "\<not> isCell w h (- 1) 1"
    by (simp add: isCell_def)
  then have "aldousBroderBody w h (g, {(0, 0)}, (1, 1), 1, []) = Some (g, {(0, 0)}, (1, 1), 1, [])"
    by (simp add: aldousBroderBody_def r directions2_def move_def Let_def)
  then have "neverEnds ?b (aldousBroderBody w h) (aldousBroderStart [] w h)"
    unfolding s using assms(3) by (intro neverEnds_fixpoint) simp_all
  then have "whileM ?b (aldousBroderBody w h) (aldousBroderStart [] w h) = None"
    by (rule neverEnds_None)
  moreover from aldousBroder_cases [OF assms(1,2), of "[]"]
  have "generateAldousBroderMaze [] w h = None
      \<or> (\<exists>g. generateAldousBroderMaze [] w h = Some g)"
    by blast
  moreover have "whileM ?b (aldousBroderBody w h) (aldousBroderStart [] w h) \<noteq> None"
    if "generateAldousBroderMaze [] w h = Some g'" for g'
    using that
    by (auto simp: generateAldousBroderMaze_def aldousBroderStart_def Let_def
        split: option.splits)
  ultimately show ?thesis by blast
qed

lemma wilsons_can_run_forever:
  assumes "2 \<le> w * h"
  shows "generateWilsonsMaze [] w h = None"
proof -
  let ?b = "(\<lambda>(g, visitedCells, rnd). card visitedCells < w * h) :: wilson_state \<Rightarrow> bool"
  have p: "pickCell w h [] = ((1, 1), [])"
    by (simp add: pickCell_def randomIndex_def draw_def rest_def cellToGrid_def)
  have "neverEnds (\<lambda>(p, rnd). p \<in> {(1, 1)}) (\<lambda>(p, rnd). Some (pickCell w h rnd)) ((1, 1), [])"
    by (intro neverEnds_fixpoint) (simp_all add: p)
  then have "pickUnvisited w h {(1, 1)} [] = None"
    unfolding pickUnvisited_def p by (rule neverEnds_None)
  then have body: "wilsonBody w h (g, {(1, 1)}, []) = None" for g
    by (simp add: wilsonBody_def)
  have "whileM ?b (wilsonBody w h) (g, {(1, 1)}, []) = None" for g
    using assms body [of g] by (subst whileM.simps) simp
  then show ?thesis
    by (simp add: generateWilsonsMaze_def p split: option.splits)
qed

text \<open>
  C3. For \<open>width, height \<ge> 1\<close>, whatever the outcome of the random choices and
  whatever the selection policy of the growing tree: the recursive backtracker, Prim,
  Kruskal, binary tree, recursive division and growing tree return a grid, and every
  position of its outermost ring is a wall, except \<open>(1, 0)\<close> and
  \<open>(gridHeight - 2, gridWidth - 1)\<close>, which are paths. Wilson's algorithm and
  Aldous-Broder return a grid with the same ring, unless they return nothing, which
  happens only when one of their loops runs forever.
\<close>

theorem outer_ring:
  assumes "1 \<le> width" "1 \<le> height"
  shows "(\<exists>g. generateRecursiveBacktrackerMaze rnd1 width height = Some g
            \<and> ringSpec width height g)
       \<and> (\<exists>g. generatePrimsMaze rnd2 width height = Some g \<and> ringSpec width height g)
       \<and> (\<exists>g. generateKruskalsMaze rnd3 width height = Some g \<and> ringSpec width height g)
       \<and> (\<exists>g. generateBinaryTreeMaze rnd4 width height = Some g \<and> ringSpec width height g)
       \<and> (\<exists>g. generateRecursiveDivisionMaze rnd5 width height = Some g
            \<and> ringSpec width height g)
       \<and> (\<exists>g. generateGrowingTreeMaze rnd6 width height method = Some g
            \<and> ringSpec width height g)
       \<and> ((\<exists>g. generateWilsonsMaze rnd7 width height = Some g \<and> ringSpec width height g)
            \<or> (generateWilsonsMaze rnd7 width height = None
                \<and> wilsonsNeverEnds rnd7 width height))
       \<and> ((\<exists>g. generateAldousBroderMaze rnd8 width height = Some g
              \<and> ringSpec width height g)
            \<or> (generateAldousBroderMaze rnd8 width height = None
                \<and> neverEnds (\<lambda>(g, visitedCells, cur, cellsVisitedCount, rnd).
                                cellsVisitedCount < width * height)
                     (aldousBroderBody width height) (aldousBroderStart rnd8 width height)))"
proof (intro conjI)
  from backtracker_total [OF assms, of rnd1] backtracker_ring [OF _ assms]
  show "\<exists>g. generateRecursiveBacktrackerMaze rnd1 width height = Some g \<and> ringSpec width height g"
    by blast
  from prims_total [OF assms, of rnd2] prims_ring [OF _ assms]
  show "\<exists>g. generatePrimsMaze rnd2 width height = Some g \<and> ringSpec width height g"
    by blast
  from kruskal_total [OF assms, of rnd3] kruskal_ring [OF _ assms]
  show "\<exists>g. generateKruskalsMaze rnd3 width height = Some g \<and> ringSpec width height g"
    by blast
  from binaryTree_total [OF assms, of rnd4] binaryTree_ring [OF _ assms]
  show "\<exists>g. generateBinaryTreeMaze rnd4 width height = Some g \<and> ringSpec width height g"
    by blast
  from division_total [OF assms, of rnd5] division_ring [OF _ assms]
  show "\<exists>g. generateRecursiveDivisionMaze rnd5 width height = Some g \<and> ringSpec width height g"
    by blast
  from growingTree_total [OF assms, of rnd6 "method"] growingTree_ring [OF _ assms]
  show "\<exists>g. generateGrowingTreeMaze rnd6 width height method = Some g \<and> ringSpec width height g"
    by blast
  show "(\<exists>g. generateWilsonsMaze rnd7 width height = Some g \<and> ringSpec width height g)
      \<or> (generateWilsonsMaze rnd7 width height = None \<and> wilsonsNeverEnds rnd7 width height)"
    using assms by (rule wilsons_cases)
  show "(\<exists>g. generateAldousBroderMaze rnd8 width height = Some g \<and> ringSpec width height g)
      \<or> (generateAldousBroderMaze rnd8 width height = None
          \<and> neverEnds (\<lambda>(g, visitedCells, cur, cellsVisitedCount, rnd).
                          cellsVisitedCount < width * height)
               (aldousBroderBody width height) (aldousBroderStart rnd8 width height))"
    using assms by (rule aldousBroder_cases)
qed

theorem outer_ring_witness:
  "generateRecursiveBacktrackerMaze [] 2 2
     = Some [[1, 1, 1, 1, 1], [0, 0, 1, 0, 1], [1, 0, 1, 0, 1], [1, 0, 0, 0, 0], [1, 1, 1, 1, 1]]
   \<and> ringSpec 2 2 [[1, 1, 1, 1, 1], [0, 0, 1, 0, 1], [1, 0, 1, 0, 1], [1, 0, 0, 0, 0], [1, 1, 1, 1, 1]]
   \<and> generatePrimsMaze [] 2 2
     = Some [[1, 1, 1, 1, 1], [0, 0, 0, 0, 1], [1, 0, 1, 1, 1], [1, 0, 0, 0, 0], [1, 1, 1, 1, 1]]
   \<and> generateKruskalsMaze [] 2 2
     = Some [[1, 1, 1, 1, 1], [0, 0, 0, 0, 1], [1, 0, 1, 1, 1], [1, 0, 0, 0, 0], [1, 1, 1, 1, 1]]
   \<and> ringSpec 2 2 [[1, 1, 1, 1, 1], [0, 0, 0, 0, 1], [1, 0, 1, 1, 1], [1, 0, 0, 0, 0], [1, 1, 1, 1, 1]]
   \<and> generateBinaryTreeMaze [] 2 2
     = Some [[1, 1, 1, 1, 1], [0, 0, 0, 0, 1], [1, 0, 1, 0, 1], [1, 0, 1, 0, 0], [1, 1, 1, 1, 1]]
   \<and> generateWilsonsMaze [0, 0, 1, 1, 0, 2, 1, 0, 0] 2 2
     = Some [[1, 1, 1, 1, 1], [0, 0, 0, 0, 1], [1, 0, 1, 0, 1], [1, 0, 1, 0, 0], [1, 1, 1, 1, 1]]
   \<and> ringSpec 2 2 [[1, 1, 1, 1, 1], [0, 0, 0, 0, 1], [1, 0, 1, 0, 1], [1, 0, 1, 0, 0], [1, 1, 1, 1, 1]]
   \<and> generateAldousBroderMaze [0, 0, 1, 3, 0] 2 2
     = Some [[1, 1, 1, 1, 1], [0, 0, 1, 0, 1], [1, 0, 1, 0, 1], [1, 0, 0, 0, 0], [1, 1, 1, 1, 1]]
   \<and> generateGrowingTreeMaze [] 2 2 Newest
     = Some [[1, 1, 1, 1, 1], [0, 0, 1, 0, 1], [1, 0, 1, 0, 1], [1, 0, 0, 0, 0], [1, 1, 1, 1, 1]]
   \<and> generateRecursiveDivisionMaze [] 2 2 = Some mazeRD2x2
   \<and> ringSpec 2 2 mazeRD2x2"
proof -
  let ?A = "[[1, 1, 1, 1, 1], [0, 0, 1, 0, 1], [1, 0, 1, 0, 1], [1, 0, 0, 0, 0], [1, 1, 1, 1, 1 :: int]]"
  let ?B = "[[1, 1, 1, 1, 1], [0, 0, 0, 0, 1], [1, 0, 1, 1, 1], [1, 0, 0, 0, 0], [1, 1, 1, 1, 1 :: int]]"
  let ?C = "[[1, 1, 1, 1, 1], [0, 0, 0, 0, 1], [1, 0, 1, 0, 1], [1, 0, 1, 0, 0], [1, 1, 1, 1, 1 :: int]]"
  have wh: "1 \<le> (2 :: nat)"
    by simp
  have 1: "generateRecursiveBacktrackerMaze [] 2 2 = Some ?A"
    by code_simp
  have 2: "generatePrimsMaze [] 2 2 = Some ?B"
    by code_simp
  have 3: "generateKruskalsMaze [] 2 2 = Some ?B"
    by code_simp
  have 4: "generateBinaryTreeMaze [] 2 2 = Some ?C"
    by code_simp
  have 5: "generateRecursiveDivisionMaze [] 2 2 = Some mazeRD2x2"
    by code_simp
  have 6: "generateGrowingTreeMaze [] 2 2 Newest = Some ?A"
    by code_simp
  have 7: "generateWilsonsMaze [0, 0, 1, 1, 0, 2, 1, 0, 0] 2 2 = Some ?C"
    by code_simp
  have 8: "generateAldousBroderMaze [0, 0, 1, 3, 0] 2 2 = Some ?A"
    by code_simp
  from outer_ring [OF wh wh, of "[]" "[]" "[]" "[]" "[]" "[]" Newest
      "[0, 0, 1, 1, 0, 2, 1, 0, 0]" "[0, 0, 1, 3, 0]"]
  have "ringSpec 2 2 ?A" "ringSpec 2 2 ?B" "ringSpec 2 2 ?C" "ringSpec 2 2 mazeRD2x2"
    unfolding 1 2 3 4 5 6 7 8 by simp_all
  with 1 2 3 4 5 6 7 8 show ?thesis
    by simp
qed

end
